theory Spec2Isabelle
  imports Main "HOL-Library.Word"
begin

section \<open>The bit-vector SLS engine of \<^verbatim>\<open>src/ast/sls/bv_sls.cpp\<close>\<close>

text \<open>
  The scheduler of \<^verbatim>\<open>bv::sls\<close> is embedded function by function. Its collaborators
  (the term index \<^verbatim>\<open>sls_terms\<close>, the evaluator \<^verbatim>\<open>sls_eval\<close>, the generator
  \<^verbatim>\<open>random_gen\<close>, the resource limit behind \<^verbatim>\<open>m.inc()\<close>) are not part of the file;
  they are parameters of the model, collected in the record \<open>env\<close>.
\<close>

subsection \<open>Expressions\<close>

text \<open>
  An \<^verbatim>\<open>expr*\<close> is a node with an id, a sort and its arguments; \<^verbatim>\<open>nullptr\<close> is
  \<open>None\<close> of \<open>expr option\<close>.
\<close>

datatype sort = Bool_sort | BV_sort nat | Other_sort

datatype expr = App (get_id: nat) (get_sort: sort) (get_args: "expr list")

definition is_bool :: "expr \<Rightarrow> bool" where
  "is_bool e = (get_sort e = Bool_sort)"

definition is_bv :: "expr \<Rightarrow> bool" where
  "is_bv e = (case get_sort e of BV_sort w \<Rightarrow> True | _ \<Rightarrow> False)"

definition get_num_args :: "expr \<Rightarrow> nat" where
  "get_num_args e = length (get_args e)"

definition get_arg :: "expr \<Rightarrow> nat \<Rightarrow> expr" where
  "get_arg e i = get_args e ! i"

datatype lbool = l_false | l_undef | l_true

datatype error = Unreachable

subsection \<open>Repair sets\<close>

text \<open>
  Modelled from the spec: \<^verbatim>\<open>indexed_uint_set\<close> (util/uint_set.h) is not under src/.
  Section 4.3 of the spec asks for insert, remove, contains, size, is_empty, elem_at and
  reset, with idempotent insertion; section 9 says that a dense array with swap-on-remove
  is what the source uses. The set is the list of its elements in array order.
\<close>

type_synonym uset = "nat list"

definition uset_insert :: "nat \<Rightarrow> uset \<Rightarrow> uset" where
  "uset_insert x xs = (if x \<in> set xs then xs else xs @ [x])"

definition uset_pos :: "nat \<Rightarrow> uset \<Rightarrow> nat" where
  "uset_pos x xs = length (takeWhile (\<lambda>y. y \<noteq> x) xs)"

definition uset_remove :: "nat \<Rightarrow> uset \<Rightarrow> uset" where
  "uset_remove x xs =
     (if x \<in> set xs
      then (if last xs = x then butlast xs else (butlast xs)[uset_pos x xs := last xs])
      else xs)"

definition elem_at :: "uset \<Rightarrow> nat \<Rightarrow> nat" where
  "elem_at xs k = xs ! k"

definition uset_empty :: "uset \<Rightarrow> bool" where
  "uset_empty xs = (xs = [])"

definition uset_size :: "uset \<Rightarrow> nat" where
  "uset_size xs = length xs"

definition uset_reset :: "uset" where
  "uset_reset = []"

definition insert_ids :: "nat list \<Rightarrow> uset \<Rightarrow> uset" where
  "insert_ids ids xs = fold uset_insert ids xs"

subsection \<open>The collaborators\<close>

text \<open>
  \<^verbatim>\<open>sls_terms\<close>: the assertions, the vector of terms (which has null entries, see the
  test \<^verbatim>\<open>t && ...\<close> in \<^verbatim>\<open>init_repair\<close>), the lookup \<^verbatim>\<open>term(id)\<close>, the parents
  of a node, and the assertion test.
\<close>

record sls_terms =
  assertions :: "expr list"
  terms :: "expr option list"
  term_at :: "nat \<Rightarrow> expr option"
  parents :: "expr \<Rightarrow> expr list"
  is_assertion :: "expr \<Rightarrow> bool"

text \<open>
  Modelled from the spec: \<^verbatim>\<open>sls_valuation\<close> is not under src/. A bit-vector value has
  its bits and the mask of its fixed bits (spec, section 3); \<^verbatim>\<open>get\<close> reads one bit and
  \<^verbatim>\<open>eq\<close> compares the bits.
\<close>

record bvval =
  bits :: "bool list"
  fixed :: "bool list"

definition bvval_get :: "bool list \<Rightarrow> nat \<Rightarrow> bool" where
  "bvval_get d i = (i < length d \<and> d ! i)"

definition bvval_eq :: "bvval \<Rightarrow> bvval \<Rightarrow> bool" where
  "bvval_eq a b = (bits a = bits b)"

text \<open>
  \<^verbatim>\<open>sls_eval\<close>, with its state of type \<open>'ev\<close>. The callback of \<^verbatim>\<open>init_eval\<close> reads
  the evaluator and draws from the generator of the engine (state \<open>'r\<close>), so it takes
  both and returns the new generator state.
\<close>

type_synonym ('ev, 'r) init_oracle = "'ev \<Rightarrow> expr \<Rightarrow> nat \<Rightarrow> 'r \<Rightarrow> bool \<times> 'r"

record ('ev, 'r) sls_eval =
  init_eval :: "('ev, 'r) init_oracle \<Rightarrow> expr list \<Rightarrow> 'ev \<Rightarrow> 'r \<Rightarrow> 'ev \<times> 'r"
  bval0 :: "'ev \<Rightarrow> expr \<Rightarrow> bool"
  bval1 :: "'ev \<Rightarrow> expr \<Rightarrow> bool"
  wval0 :: "'ev \<Rightarrow> expr \<Rightarrow> bvval"
  wval1 :: "'ev \<Rightarrow> expr \<Rightarrow> bvval"
  can_eval1 :: "'ev \<Rightarrow> expr \<Rightarrow> bool"
  is_fixed0 :: "'ev \<Rightarrow> expr \<Rightarrow> bool"
  eval_set :: "'ev \<Rightarrow> expr \<Rightarrow> bool \<Rightarrow> 'ev"
  try_repair :: "'ev \<Rightarrow> expr \<Rightarrow> nat \<Rightarrow> bool \<times> 'ev"
  repair_up :: "'ev \<Rightarrow> expr \<Rightarrow> 'ev"

text \<open>
  Modelled from the spec: \<^verbatim>\<open>random_gen\<close> (util) is not under src/. Section 5 asks for a
  seeded generator whose draws are reproducible from the seed: \<open>draw\<close> is \<^verbatim>\<open>m_rand()\<close>,
  \<open>set_seed\<close> gives the state that \<^verbatim>\<open>m_rand.set_seed(s)\<close> leaves, and \<^verbatim>\<open>m_rand(u)\<close>
  is a draw reduced into \<open>[0, u)\<close>. The engine calls \<^verbatim>\<open>m_rand(u)\<close> with \<open>u > 0\<close> only.
\<close>

record 'r random_gen =
  draw :: "'r \<Rightarrow> nat \<times> 'r"
  set_seed :: "32 word \<Rightarrow> 'r"

definition rand_below :: "'r random_gen \<Rightarrow> 'r \<Rightarrow> nat \<Rightarrow> nat \<times> 'r" where
  "rand_below R r u = (case draw R r of (x, r') \<Rightarrow> (x mod u, r'))"

text \<open>
  The environment of a run: the collaborators, the host's \<^verbatim>\<open>m.inc()\<close> over the state
  \<open>'h\<close> of its resource limit, and the verbosity level read by \<^verbatim>\<open>IF_VERBOSE\<close>.
\<close>

record ('ev, 'r, 'h) env =
  m_terms :: sls_terms
  eval_ops :: "('ev, 'r) sls_eval"
  rand_ops :: "'r random_gen"
  inc :: "'h \<Rightarrow> bool \<times> 'h"
  verbosity_level :: nat

subsection \<open>The state of the engine\<close>

text \<open>
  The counters and limits are \<^verbatim>\<open>unsigned\<close>. A line of the verbose stream keeps the
  numbers it prints: for a move the picked set, the id, the value and the correctness
  flag (the pretty-printed expression is left out); for a restart the counter and the
  sizes of the two sets.
\<close>

record stats =
  m_moves :: "32 word"
  m_restarts :: "32 word"

record config =
  m_max_restarts :: "32 word"
  m_max_repairs :: "32 word"

datatype verbose_line =
  Move_line bool nat "bvval option" "bool option" bool
  | Restart_line "32 word" nat nat

text \<open>The counters that the restart lines of a stream report, in order.\<close>

fun restart_counts :: "verbose_line list \<Rightarrow> 32 word list" where
  "restart_counts [] = []"
| "restart_counts (Restart_line k d u # ls) = k # restart_counts ls"
| "restart_counts (Move_line d i w b c # ls) = restart_counts ls"

record ('ev, 'r, 'h) sls =
  m_eval :: 'ev
  m_rand :: 'r
  m_repair_down :: uset
  m_repair_up :: uset
  m_config :: config
  m_stats :: stats
  m_limit :: 'h
  verbose_stream :: "verbose_line list"

subsection \<open>\<^verbatim>\<open>eval_is_correct\<close>\<close>

definition eval_is_correct ::
  "('ev, 'r, 'h) env \<Rightarrow> 'ev \<Rightarrow> expr \<Rightarrow> error + bool" where
  "eval_is_correct E ev e =
     (if \<not> can_eval1 (eval_ops E) ev e then Inr False
      else if is_bool e then Inr (bval0 (eval_ops E) ev e = bval1 (eval_ops E) ev e)
      else if is_bv e then Inr (bvval_eq (wval0 (eval_ops E) ev e) (wval1 (eval_ops E) ev e))
      else Inl Unreachable)"

subsection \<open>\<^verbatim>\<open>init_repair\<close> and \<^verbatim>\<open>reinit_eval\<close>\<close>

definition init_repair_assertion ::
  "('ev, 'r, 'h) env \<Rightarrow> expr \<Rightarrow> ('ev, 'r, 'h) sls \<Rightarrow> ('ev, 'r, 'h) sls" where
  "init_repair_assertion E e st =
     (if \<not> bval0 (eval_ops E) (m_eval st) e
      then st\<lparr>m_eval := eval_set (eval_ops E) (m_eval st) e True,
              m_repair_down := uset_insert (get_id e) (m_repair_down st)\<rparr>
      else st)"

fun init_repair_terms ::
  "('ev, 'r, 'h) env \<Rightarrow> expr option list \<Rightarrow> ('ev, 'r, 'h) sls \<Rightarrow> error + ('ev, 'r, 'h) sls" where
  "init_repair_terms E [] st = Inr st"
| "init_repair_terms E (None # ts) st = init_repair_terms E ts st"
| "init_repair_terms E (Some t # ts) st =
     (case eval_is_correct E (m_eval st) t of
        Inl err \<Rightarrow> Inl err
      | Inr c \<Rightarrow>
          init_repair_terms E ts
            (if \<not> c then st\<lparr>m_repair_down := uset_insert (get_id t) (m_repair_down st)\<rparr>
             else st))"

definition init_repair ::
  "('ev, 'r, 'h) env \<Rightarrow> ('ev, 'r, 'h) sls \<Rightarrow> error + ('ev, 'r, 'h) sls" where
  "init_repair E st =
     init_repair_terms E (terms (m_terms E))
       (fold (init_repair_assertion E) (assertions (m_terms E))
          (st\<lparr>m_repair_down := uset_reset, m_repair_up := uset_reset\<rparr>))"

definition should_keep :: "'r random_gen \<Rightarrow> 'r \<Rightarrow> bool \<times> 'r" where
  "should_keep R r = (case draw R r of (x, r') \<Rightarrow> (x mod 100 \<ge> 98, r'))"

definition random_bit :: "'r random_gen \<Rightarrow> 'r \<Rightarrow> bool \<times> 'r" where
  "random_bit R r = (case draw R r of (x, r') \<Rightarrow> (x mod 2 = 0, r'))"

text \<open>The lambda \<^verbatim>\<open>eval\<close> of \<^verbatim>\<open>reinit_eval\<close>; \<^verbatim>\<open>||\<close> short-circuits.\<close>

definition reinit_oracle :: "('ev, 'r, 'h) env \<Rightarrow> ('ev, 'r) init_oracle" where
  "reinit_oracle E ev e i r =
     (if is_bool e then
        (if is_fixed0 (eval_ops E) ev e then (bval0 (eval_ops E) ev e, r)
         else (case should_keep (rand_ops E) r of
                 (True, r') \<Rightarrow> (bval0 (eval_ops E) ev e, r')
               | (False, r') \<Rightarrow> random_bit (rand_ops E) r'))
      else if is_bv e then
        (let w = wval0 (eval_ops E) ev e in
         if bvval_get (fixed w) i then (bvval_get (bits w) i, r)
         else (case should_keep (rand_ops E) r of
                 (True, r') \<Rightarrow> (bvval_get (bits w) i, r')
               | (False, r') \<Rightarrow> random_bit (rand_ops E) r'))
      else random_bit (rand_ops E) r)"

definition reinit_eval ::
  "('ev, 'r, 'h) env \<Rightarrow> ('ev, 'r, 'h) sls \<Rightarrow> error + ('ev, 'r, 'h) sls" where
  "reinit_eval E st =
     (case init_eval (eval_ops E) (reinit_oracle E) (assertions (m_terms E)) (m_eval st) (m_rand st) of
        (ev', r') \<Rightarrow> init_repair E (st\<lparr>m_eval := ev', m_rand := r'\<rparr>))"

subsection \<open>\<^verbatim>\<open>next_to_repair\<close>\<close>

definition next_to_repair ::
  "('ev, 'r, 'h) env \<Rightarrow> ('ev, 'r, 'h) sls \<Rightarrow> bool \<times> expr option \<times> ('ev, 'r, 'h) sls" where
  "next_to_repair E st =
     (case (if \<not> uset_empty (m_repair_down st) then
              (case rand_below (rand_ops E) (m_rand st) (uset_size (m_repair_down st)) of
                 (index, r') \<Rightarrow>
                   (term_at (m_terms E) (elem_at (m_repair_down st) index), st\<lparr>m_rand := r'\<rparr>))
            else if \<not> uset_empty (m_repair_up st) then
              (case rand_below (rand_ops E) (m_rand st) (uset_size (m_repair_up st)) of
                 (index, r') \<Rightarrow>
                   (term_at (m_terms E) (elem_at (m_repair_up st) index), st\<lparr>m_rand := r'\<rparr>))
            else (None, st)) of
        (e, st') \<Rightarrow> (\<not> uset_empty (m_repair_down st'), e, st'))"

subsection \<open>The repair moves\<close>

text \<open>\<^verbatim>\<open>try_repair_down(app* e, unsigned i)\<close>.\<close>

definition try_repair_down_at ::
  "('ev, 'r, 'h) env \<Rightarrow> expr \<Rightarrow> nat \<Rightarrow> ('ev, 'r, 'h) sls \<Rightarrow> bool \<times> ('ev, 'r, 'h) sls" where
  "try_repair_down_at E e i st =
     (let child = get_arg e i in
      case try_repair (eval_ops E) (m_eval st) e i of
        (was_repaired, ev') \<Rightarrow>
          if was_repaired then
            (True, st\<lparr>m_eval := ev',
                      m_repair_down := uset_insert (get_id child) (m_repair_down st),
                      m_repair_up := insert_ids (map get_id (parents (m_terms E) child)) (m_repair_up st)\<rparr>)
          else (False, st\<lparr>m_eval := ev'\<rparr>))"

text \<open>
  The loop of \<^verbatim>\<open>try_repair_down(app* e)\<close> from index \<open>i\<close> on; the result says whether
  the loop left by \<^verbatim>\<open>return\<close>. The sum \<^verbatim>\<open>i + s\<close> is \<^verbatim>\<open>unsigned\<close>.
\<close>

function try_repair_down_loop ::
  "('ev, 'r, 'h) env \<Rightarrow> expr \<Rightarrow> nat \<Rightarrow> nat \<Rightarrow> nat \<Rightarrow> ('ev, 'r, 'h) sls \<Rightarrow> bool \<times> ('ev, 'r, 'h) sls" where
  "try_repair_down_loop E e s n i st =
     (if i < n then
        (case try_repair_down_at E e (((i + s) mod 4294967296) mod n) st of
           (True, st') \<Rightarrow> (True, st')
         | (False, st') \<Rightarrow> try_repair_down_loop E e s n (i + 1) st')
      else (False, st))"
  by pat_completeness auto
termination
  by (relation "measure (\<lambda>(E, e, s, n, i, st). n - i)") auto

declare try_repair_down_loop.simps [simp del]

definition try_repair_down ::
  "('ev, 'r, 'h) env \<Rightarrow> expr \<Rightarrow> ('ev, 'r, 'h) sls \<Rightarrow> ('ev, 'r, 'h) sls" where
  "try_repair_down E e st =
     (let n = get_num_args e in
      case (if n > 0 then
              (case rand_below (rand_ops E) (m_rand st) n of
                 (s, r') \<Rightarrow> try_repair_down_loop E e s n 0 (st\<lparr>m_rand := r'\<rparr>))
            else (False, st)) of
        (True, st') \<Rightarrow> st'
      | (False, st') \<Rightarrow>
          st'\<lparr>m_repair_down := uset_remove (get_id e) (m_repair_down st'),
               m_repair_up := uset_insert (get_id e) (m_repair_up st')\<rparr>)"

definition try_repair_up ::
  "('ev, 'r, 'h) env \<Rightarrow> expr \<Rightarrow> ('ev, 'r, 'h) sls \<Rightarrow> ('ev, 'r, 'h) sls" where
  "try_repair_up E e st =
     (let st1 = st\<lparr>m_repair_up := uset_remove (get_id e) (m_repair_up st)\<rparr> in
      if is_assertion (m_terms E) e then
        st1\<lparr>m_repair_down := uset_insert (get_id e) (m_repair_down st1)\<rparr>
      else
        st1\<lparr>m_eval := repair_up (eval_ops E) (m_eval st1) e,
             m_repair_up := insert_ids (map get_id (parents (m_terms E) e)) (m_repair_up st1)\<rparr>)"

subsection \<open>\<^verbatim>\<open>search\<close>\<close>

text \<open>
  One round of the loop of \<^verbatim>\<open>search\<close>, after its guard: the result is \<open>Some l_true\<close>
  where the source returns, and \<open>None\<close> where the loop goes on.
\<close>

definition move_line :: "('ev, 'r, 'h) env \<Rightarrow> 'ev \<Rightarrow> bool \<Rightarrow> expr \<Rightarrow> bool \<Rightarrow> verbose_line" where
  "move_line E ev down e is_correct =
     Move_line down (get_id e)
       (if is_bv e then Some (wval0 (eval_ops E) ev e) else None)
       (if is_bool e then Some (bval0 (eval_ops E) ev e) else None)
       is_correct"

definition search_body ::
  "('ev, 'r, 'h) env \<Rightarrow> ('ev, 'r, 'h) sls \<Rightarrow> error + (lbool option \<times> ('ev, 'r, 'h) sls)" where
  "search_body E st =
     (let st1 = st\<lparr>m_stats := (m_stats st)\<lparr>m_moves := m_moves (m_stats st) + 1\<rparr>\<rparr> in
      case next_to_repair E st1 of
        (down, None, st2) \<Rightarrow> Inr (Some l_true, st2)
      | (down, Some e, st2) \<Rightarrow>
          (case eval_is_correct E (m_eval st2) e of
             Inl err \<Rightarrow> Inl err
           | Inr is_correct \<Rightarrow>
               (let st3 = (if 20 \<le> verbosity_level E
                           then st2\<lparr>verbose_stream := verbose_stream st2 @
                                      [move_line E (m_eval st2) down e is_correct]\<rparr>
                           else st2) in
                Inr (None,
                  if is_correct then
                    (if down
                     then st3\<lparr>m_repair_down := uset_remove (get_id e) (m_repair_down st3)\<rparr>
                     else st3\<lparr>m_repair_up := uset_remove (get_id e) (m_repair_up st3)\<rparr>)
                  else if down then try_repair_down E e st3
                  else try_repair_up E e st3))))"

text \<open>
  The loop \<^verbatim>\<open>for (; n++ < m_config.m_max_repairs && m.inc(); )\<close>, entered with the
  counter \<open>n\<close>: \<^verbatim>\<open>m.inc()\<close> is asked only when the budget is not exhausted.
\<close>

function search_loop ::
  "('ev, 'r, 'h) env \<Rightarrow> 32 word \<Rightarrow> ('ev, 'r, 'h) sls \<Rightarrow> error + (lbool \<times> ('ev, 'r, 'h) sls)" where
  "search_loop E n st =
     (if n < m_max_repairs (m_config st) then
        (case inc E (m_limit st) of
           (True, h) \<Rightarrow>
             (case search_body E (st\<lparr>m_limit := h\<rparr>) of
                Inl err \<Rightarrow> Inl err
              | Inr (Some res, st') \<Rightarrow> Inr (res, st')
              | Inr (None, st') \<Rightarrow> search_loop E (n + 1) st')
         | (False, h) \<Rightarrow> Inr (l_undef, st\<lparr>m_limit := h\<rparr>))
      else Inr (l_undef, st))"
  by pat_completeness auto
termination
proof (relation "measure (\<lambda>(E, n, st). 4294967296 - unat n)")
  show "wf (measure (\<lambda>(E :: ('ev, 'r, 'h) env, n :: 32 word, st :: ('ev, 'r, 'h) sls).
          4294967296 - unat n))"
    by simp
next
  fix E :: "('ev, 'r, 'h) env" and n :: "32 word" and st st' :: "('ev, 'r, 'h) sls"
  assume "n < m_max_repairs (m_config st)"
  then have "unat (n + 1) = Suc (unat n)"
    by unat_arith
  moreover have "unat n < 4294967296"
    using unsigned_less [of n, where 'a = nat] by simp
  ultimately show "((E, n + 1, st'), E, n, st) \<in> measure (\<lambda>(E, n, st). 4294967296 - unat n)"
    by simp
qed

declare search_loop.simps [simp del]

definition search ::
  "('ev, 'r, 'h) env \<Rightarrow> ('ev, 'r, 'h) sls \<Rightarrow> error + (lbool \<times> ('ev, 'r, 'h) sls)" where
  "search E st = search_loop E 0 st"

subsection \<open>\<^verbatim>\<open>trace\<close>, \<^verbatim>\<open>operator()\<close> and \<^verbatim>\<open>updt_params\<close>\<close>

definition trace :: "('ev, 'r, 'h) env \<Rightarrow> ('ev, 'r, 'h) sls \<Rightarrow> ('ev, 'r, 'h) sls" where
  "trace E st =
     (if 2 \<le> verbosity_level E
      then st\<lparr>verbose_stream := verbose_stream st @
                [Restart_line (m_restarts (m_stats st))
                   (uset_size (m_repair_down st)) (uset_size (m_repair_up st))]\<rparr>
      else st)"

text \<open>
  Modelled from the spec: \<^verbatim>\<open>sls_params\<close> (generated from params/sls_params.pyg) is not
  under src/. \<^verbatim>\<open>updt_params\<close> reads two unsigned options of it.
\<close>

record sls_params =
  max_restarts :: "32 word"
  random_seed :: "32 word"

definition updt_params ::
  "('ev, 'r, 'h) env \<Rightarrow> sls_params \<Rightarrow> ('ev, 'r, 'h) sls \<Rightarrow> ('ev, 'r, 'h) sls" where
  "updt_params E p st =
     st\<lparr>m_config := (m_config st)\<lparr>m_max_restarts := max_restarts p\<rparr>,
        m_rand := set_seed (rand_ops E) (random_seed p)\<rparr>"

subsection \<open>Notions used to state the properties\<close>

text \<open>
  An id is known when \<^verbatim>\<open>term(id)\<close> gives a node, and that node has this id. The repair
  sets hold ids of nodes only; the index keeps them known (section 4.1 of the spec).
\<close>

definition known_id :: "sls_terms \<Rightarrow> nat \<Rightarrow> bool" where
  "known_id T i = (case term_at T i of None \<Rightarrow> False | Some e \<Rightarrow> get_id e = i)"

text \<open>
  The contract of \<^verbatim>\<open>set\<close> (section 4.2 of the spec): it overwrites the current value
  of its node and of no other node. \<open>set_false_assertions\<close> is the evaluator state after
  \<^verbatim>\<open>set(a, true)\<close> for each assertion found false, in order.
\<close>

definition set_overwrites :: "('ev, 'r) sls_eval \<Rightarrow> bool" where
  "set_overwrites V =
     (\<forall>ev e v e'. bval0 V (eval_set V ev e v) e' =
        (if get_id e' = get_id e then v else bval0 V ev e'))"

definition set_false_assertions :: "('ev, 'r) sls_eval \<Rightarrow> expr list \<Rightarrow> 'ev \<Rightarrow> 'ev" where
  "set_false_assertions V as ev =
     fold (\<lambda>a ev. if \<not> bval0 V ev a then eval_set V ev a True else ev) as ev"

text \<open>
  The index is closed when every node it knows is stored under its own id and the
  arguments of the node, their parents and the parents of the node are known too. A
  state has known ids when all ids in its two sets are known.
\<close>

definition terms_closed :: "sls_terms \<Rightarrow> bool" where
  "terms_closed T =
     (\<forall>i e. term_at T i = Some e \<longrightarrow>
        get_id e = i \<and>
        (\<forall>c \<in> set (get_args e).
           known_id T (get_id c) \<and> (\<forall>p \<in> set (parents T c). known_id T (get_id p))) \<and>
        (\<forall>p \<in> set (parents T e). known_id T (get_id p)))"

definition ids_known :: "sls_terms \<Rightarrow> ('ev, 'r, 'h) sls \<Rightarrow> bool" where
  "ids_known T st = (\<forall>i \<in> set (m_repair_down st) \<union> set (m_repair_up st). known_id T i)"

text \<open>
  The index is sorted when every node it knows is Boolean or a bit-vector, the sorts
  \<^verbatim>\<open>eval_is_correct\<close> handles.
\<close>

definition terms_sorted :: "sls_terms \<Rightarrow> bool" where
  "terms_sorted T = (\<forall>i e. term_at T i = Some e \<longrightarrow> is_bool e \<or> is_bv e)"

text \<open>
  The two repair sets are indexed sets: in the model, lists that hold no id twice.
\<close>

definition sets_distinct :: "('ev, 'r, 'h) sls \<Rightarrow> bool" where
  "sets_distinct st = (distinct (m_repair_down st) \<and> distinct (m_repair_up st))"

text \<open>
  \<open>search_reaches E n st n' st'\<close>: the loop of \<^verbatim>\<open>search\<close>, entered with counter \<open>n\<close> in
  state \<open>st\<close>, comes to test its guard with counter \<open>n'\<close> in state \<open>st'\<close>.
\<close>

inductive search_reaches ::
  "('ev, 'r, 'h) env \<Rightarrow> 32 word \<Rightarrow> ('ev, 'r, 'h) sls \<Rightarrow> 32 word \<Rightarrow> ('ev, 'r, 'h) sls \<Rightarrow> bool"
  for E where
  here: "search_reaches E n st n st"
| round: "n < m_max_repairs (m_config st) \<Longrightarrow> inc E (m_limit st) = (True, h) \<Longrightarrow>
          search_body E (st\<lparr>m_limit := h\<rparr>) = Inr (None, st1) \<Longrightarrow>
          search_reaches E (n + 1) st1 n' st' \<Longrightarrow> search_reaches E n st n' st'"

text \<open>
  The order in which section 4.4 of the spec tries the children of a node with \<open>n\<close>
  children from the start index \<open>s\<close>, and the procedure that tries the children of a
  list in order and stops at the first success.
\<close>

fun try_in_order ::
  "('ev, 'r, 'h) env \<Rightarrow> expr \<Rightarrow> nat list \<Rightarrow> ('ev, 'r, 'h) sls \<Rightarrow> bool \<times> ('ev, 'r, 'h) sls" where
  "try_in_order E e [] st = (False, st)"
| "try_in_order E e (j # js) st =
     (case try_repair_down_at E e j st of
        (True, st') \<Rightarrow> (True, st')
      | (False, st') \<Rightarrow> try_in_order E e js st')"

definition cyclic_order :: "nat \<Rightarrow> nat \<Rightarrow> nat list" where
  "cyclic_order s n = map (\<lambda>i. (s + i) mod n) [0..<n]"

text \<open>
  The answers of the evaluator alone: \<^verbatim>\<open>try_repair\<close> asked for the children of a
  list in order, up to the first answer \<open>true\<close>; the result is the index of that child,
  if any, and the evaluator state then. \<open>down_order s n\<close> lists the indices
  \<^verbatim>\<open>(i + s) % n\<close> that the loop of \<^verbatim>\<open>try_repair_down\<close> computes for
  \<open>i = 0, ..., n - 1\<close>, the sum being \<^verbatim>\<open>unsigned\<close>.
\<close>

fun first_repair :: "('ev, 'r) sls_eval \<Rightarrow> expr \<Rightarrow> nat list \<Rightarrow> 'ev \<Rightarrow> nat option \<times> 'ev" where
  "first_repair V e [] ev = (None, ev)"
| "first_repair V e (j # js) ev =
     (case try_repair V ev e j of
        (True, ev') \<Rightarrow> (Some j, ev')
      | (False, ev') \<Rightarrow> first_repair V e js ev')"

definition down_order :: "nat \<Rightarrow> nat \<Rightarrow> nat list" where
  "down_order s n = map (\<lambda>i. ((i + s) mod 4294967296) mod n) [0..<n]"



text \<open>
  \<open>run_resumes E st k st'\<close>: the loop of \<^verbatim>\<open>operator()\<close>, entered in state \<open>st\<close>,
  calls \<^verbatim>\<open>search\<close> again for the \<open>k\<close>-th time in state \<open>st'\<close>.
\<close>

inductive run_resumes ::
  "('ev, 'r, 'h) env \<Rightarrow> ('ev, 'r, 'h) sls \<Rightarrow> nat \<Rightarrow> ('ev, 'r, 'h) sls \<Rightarrow> bool"
  for E where
  start: "run_resumes E st 0 st"
| again: "search E st = Inr (l_undef, st1) \<Longrightarrow> reinit_eval E (trace E st1) = Inr st2 \<Longrightarrow>
          inc E (m_limit st2) = (True, h) \<Longrightarrow>
          m_restarts (m_stats st2) < m_max_restarts (m_config st2) \<Longrightarrow>
          run_resumes E
            (st2\<lparr>m_limit := h,
                 m_stats := (m_stats st2)\<lparr>m_restarts := m_restarts (m_stats st2) + 1\<rparr>\<rparr>) k st' \<Longrightarrow>
          run_resumes E st (Suc k) st'"

text \<open>
  \<open>with_log vs st\<close> is the state \<open>st\<close> with the lines \<open>vs\<close> written before its
  verbose stream. \<open>picks\<close> lists the picks that the move lines of a stream report: the
  set (true for \<open>down\<close>) and the id of the node.
\<close>

definition with_log :: "verbose_line list \<Rightarrow> ('ev, 'r, 'h) sls \<Rightarrow> ('ev, 'r, 'h) sls" where
  "with_log vs st = st\<lparr>verbose_stream := vs @ verbose_stream st\<rparr>"

fun picks :: "verbose_line list \<Rightarrow> (bool \<times> nat) list" where
  "picks [] = []"
| "picks (Move_line d i w b c # ls) = (d, i) # picks ls"
| "picks (Restart_line k d u # ls) = picks ls"

subsection \<open>A small instance\<close>

text \<open>
  Boolean constants \<open>x\<close> (id 0) and \<open>y\<close> (id 2), the terms \<open>\<not> x\<close> (id 1, the assertion)
  and \<open>x \<and> y\<close> (id 3), a two-bit vector (id 4) and a node of another sort (id 5). The
  evaluator state is the set of the ids whose current Boolean value is true; the generator is a
  small linear congruential one; the host allows \<open>h\<close> more calls of \<^verbatim>\<open>inc\<close>.
\<close>

definition ex_x :: expr where "ex_x = App 0 Bool_sort []"
definition ex_not :: expr where "ex_not = App 1 Bool_sort [ex_x]"
definition ex_y :: expr where "ex_y = App 2 Bool_sort []"
definition ex_and :: expr where "ex_and = App 3 Bool_sort [ex_x, ex_y]"
definition ex_v :: expr where "ex_v = App 4 (BV_sort 2) []"
definition ex_u :: expr where "ex_u = App 5 Other_sort []"

definition ex_terms :: sls_terms where
  "ex_terms = \<lparr>assertions = [ex_not],
     terms = [Some ex_x, Some ex_not, Some ex_y, Some ex_and, Some ex_v, None],
     term_at = (\<lambda>i. if i = 0 then Some ex_x else if i = 1 then Some ex_not
                    else if i = 2 then Some ex_y else if i = 3 then Some ex_and
                    else if i = 4 then Some ex_v else None),
     parents = (\<lambda>e. if get_id e = 0 then [ex_not, ex_and] else if get_id e = 2 then [ex_and] else []),
     is_assertion = (\<lambda>e. get_id e = 1)\<rparr>"

definition ex_bval1 :: "nat set \<Rightarrow> expr \<Rightarrow> bool" where
  "ex_bval1 ev e = (if get_id e = 1 then 0 \<notin> ev else if get_id e = 3 then 0 \<in> ev \<and> 2 \<in> ev
                    else get_id e \<in> ev)"

definition ex_set :: "nat set \<Rightarrow> nat \<Rightarrow> bool \<Rightarrow> nat set" where
  "ex_set ev i v = (if v then insert i ev else ev - {i})"

definition ex_try_repair :: "nat set \<Rightarrow> expr \<Rightarrow> nat \<Rightarrow> bool \<times> nat set" where
  "ex_try_repair ev e i =
     (if get_id e = 1 \<and> i = 0 \<and> (0 \<in> ev \<longleftrightarrow> 1 \<in> ev) then (True, ex_set ev 0 (1 \<notin> ev))
      else if get_id e = 3 \<and> i = 0 \<and> 3 \<in> ev \<and> 0 \<notin> ev then (True, ex_set ev 0 True)
      else (False, ev))"

definition ex_init_eval ::
  "(nat set, nat) init_oracle \<Rightarrow> expr list \<Rightarrow> nat set \<Rightarrow> nat \<Rightarrow> nat set \<times> nat" where
  "ex_init_eval f as ev r =
     (case f ev ex_x 0 r of (bx, r1) \<Rightarrow>
        (case f (ex_set ev 0 bx) ex_y 0 r1 of (by, r2) \<Rightarrow>
           (ex_set (ex_set (ex_set (ex_set {} 0 bx) 1 (\<not> bx)) 2 by) 3 (bx \<and> by), r2)))"

definition ex_eval :: "(nat set, nat) sls_eval" where
  "ex_eval = \<lparr>init_eval = ex_init_eval,
     bval0 = (\<lambda>ev e. get_id e \<in> ev),
     bval1 = ex_bval1,
     wval0 = (\<lambda>ev e. \<lparr>bits = [True, False], fixed = [False, True]\<rparr>),
     wval1 = (\<lambda>ev e. \<lparr>bits = [True, False], fixed = [False, True]\<rparr>),
     can_eval1 = (\<lambda>ev e. get_sort e \<noteq> Other_sort),
     is_fixed0 = (\<lambda>ev e. get_id e = 2),
     eval_set = (\<lambda>ev e v. ex_set ev (get_id e) v),
     try_repair = ex_try_repair,
     repair_up = (\<lambda>ev e. ex_set ev (get_id e) (ex_bval1 ev e))\<rparr>"

definition ex_rand :: "nat random_gen" where
  "ex_rand = \<lparr>draw = (\<lambda>r. (r, (5 * r + 3) mod 16)), set_seed = unat\<rparr>"

definition ex_env :: "(nat set, nat, nat) env" where
  "ex_env = \<lparr>m_terms = ex_terms, eval_ops = ex_eval, rand_ops = ex_rand,
     inc = (\<lambda>h. (0 < h, h - 1)), verbosity_level = 20\<rparr>"

definition ex_sls :: "(nat set, nat, nat) sls" where
  "ex_sls = \<lparr>m_eval = {0, 1, 2, 3}, m_rand = 0,
     m_repair_down = [1], m_repair_up = [],
     m_config = \<lparr>m_max_restarts = 2, m_max_repairs = 10\<rparr>,
     m_stats = \<lparr>m_moves = 0, m_restarts = 0\<rparr>,
     m_limit = 100, verbose_stream = []\<rparr>"

text \<open>The same instance with the node of another sort among the terms.\<close>

definition ex_env_u :: "(nat set, nat, nat) env" where
  "ex_env_u = ex_env\<lparr>m_terms := ex_terms
     \<lparr>terms := [Some ex_x, Some ex_not, Some ex_y, Some ex_and, Some ex_v, Some ex_u],
      term_at := (\<lambda>i. if i = 5 then Some ex_u else term_at ex_terms i)\<rparr>\<rparr>"




subsection \<open>What the moves, \<^verbatim>\<open>search\<close> and \<^verbatim>\<open>reinit_eval\<close> leave unchanged\<close>

text \<open>
  The loop of \<^verbatim>\<open>operator()\<close> ends because \<^verbatim>\<open>search\<close> and \<^verbatim>\<open>reinit_eval\<close> do not
  write the restart counter or the configuration.
\<close>

lemma next_to_repair_frame:
  "next_to_repair E st = (d, eo, st') \<Longrightarrow>
     m_config st' = m_config st \<and> m_stats st' = m_stats st \<and> m_limit st' = m_limit st
     \<and> verbose_stream st' = verbose_stream st \<and> m_eval st' = m_eval st
     \<and> m_repair_down st' = m_repair_down st \<and> m_repair_up st' = m_repair_up st"
  by (auto simp: next_to_repair_def split: if_splits prod.splits)

lemma try_repair_down_at_frame:
  "try_repair_down_at E e i st = (b, st') \<Longrightarrow>
     m_config st' = m_config st \<and> m_stats st' = m_stats st \<and> m_limit st' = m_limit st
     \<and> verbose_stream st' = verbose_stream st \<and> m_rand st' = m_rand st"
  by (auto simp: try_repair_down_at_def Let_def split: if_splits prod.splits)

lemma try_repair_down_loop_frame:
  "try_repair_down_loop E e s n i st = (b, st') \<Longrightarrow>
     m_config st' = m_config st \<and> m_stats st' = m_stats st \<and> m_limit st' = m_limit st
     \<and> verbose_stream st' = verbose_stream st \<and> m_rand st' = m_rand st"
proof (induction E e s n i st rule: try_repair_down_loop.induct)
  case (1 E e s n i st)
  note unfold = try_repair_down_loop.simps [of E e s n i st]
  show ?case
  proof (cases "i < n")
    case False
    with "1.prems" show ?thesis by (simp add: unfold)
  next
    case True
    obtain b1 st1 where at: "try_repair_down_at E e (((i + s) mod 4294967296) mod n) st = (b1, st1)"
      by (cases "try_repair_down_at E e (((i + s) mod 4294967296) mod n) st")
    show ?thesis
    proof (cases b1)
      case True
      with \<open>i < n\<close> at "1.prems" try_repair_down_at_frame [OF at] show ?thesis
        by (simp add: unfold)
    next
      case False
      with \<open>i < n\<close> at "1.prems" have "try_repair_down_loop E e s n (i + 1) st1 = (b, st')"
        by (simp add: unfold)
      from "1.IH" [OF \<open>i < n\<close> at [symmetric] _ this] False try_repair_down_at_frame [OF at]
      show ?thesis by simp
    qed
  qed
qed

lemma try_repair_down_frame:
  "m_config (try_repair_down E e st) = m_config st \<and>
   m_stats (try_repair_down E e st) = m_stats st \<and>
   m_limit (try_repair_down E e st) = m_limit st \<and>
   verbose_stream (try_repair_down E e st) = verbose_stream st"
proof (cases "get_num_args e > 0")
  case False
  then show ?thesis by (simp add: try_repair_down_def)
next
  case True
  obtain s r' where rb: "rand_below (rand_ops E) (m_rand st) (get_num_args e) = (s, r')"
    by (cases "rand_below (rand_ops E) (m_rand st) (get_num_args e)")
  obtain b st' where lp:
    "try_repair_down_loop E e s (get_num_args e) 0 (st\<lparr>m_rand := r'\<rparr>) = (b, st')"
    by (cases "try_repair_down_loop E e s (get_num_args e) 0 (st\<lparr>m_rand := r'\<rparr>)")
  from try_repair_down_loop_frame [OF lp] True rb lp show ?thesis
    by (cases b) (simp_all add: try_repair_down_def)
qed

lemma try_repair_up_frame:
  "m_config (try_repair_up E e st) = m_config st \<and>
   m_stats (try_repair_up E e st) = m_stats st \<and>
   m_limit (try_repair_up E e st) = m_limit st \<and>
   verbose_stream (try_repair_up E e st) = verbose_stream st \<and>
   m_rand (try_repair_up E e st) = m_rand st"
  by (simp add: try_repair_up_def Let_def)

lemma restart_counts_append: "restart_counts (xs @ ys) = restart_counts xs @ restart_counts ys"
  by (induction xs rule: restart_counts.induct) simp_all

lemma search_body_frame:
  assumes "search_body E st = Inr (r, st')"
  shows "m_config st' = m_config st \<and> m_restarts (m_stats st') = m_restarts (m_stats st)
     \<and> m_limit st' = m_limit st
     \<and> restart_counts (verbose_stream st') = restart_counts (verbose_stream st)"
proof -
  let ?st1 = "st\<lparr>m_stats := (m_stats st)\<lparr>m_moves := m_moves (m_stats st) + 1\<rparr>\<rparr>"
  obtain d eo st2 where nx: "next_to_repair E ?st1 = (d, eo, st2)"
    by (cases "next_to_repair E ?st1") auto
  note st2 = next_to_repair_frame [OF nx]
  show ?thesis
  proof (cases eo)
    case None
    with assms nx have "st' = st2" by (simp add: search_body_def)
    with st2 show ?thesis by simp
  next
    case (Some e)
    with assms nx obtain c where c: "eval_is_correct E (m_eval st2) e = Inr c"
      by (cases "eval_is_correct E (m_eval st2) e") (simp_all add: search_body_def)
    from assms nx Some c st2 show ?thesis
      by (auto simp: search_body_def Let_def move_line_def restart_counts_append
          try_repair_down_frame try_repair_up_frame split: if_splits)
  qed
qed

lemma search_loop_frame:
  "search_loop E n st = Inr (res, st') \<Longrightarrow>
     m_config st' = m_config st \<and> m_restarts (m_stats st') = m_restarts (m_stats st)
     \<and> restart_counts (verbose_stream st') = restart_counts (verbose_stream st)"
proof (induction E n st rule: search_loop.induct)
  case (1 E n st)
  note unfold = search_loop.simps [of E n st]
  show ?case
  proof (cases "n < m_max_repairs (m_config st)")
    case False
    with "1.prems" show ?thesis by (simp add: unfold)
  next
    case True
    obtain ok h where ih: "inc E (m_limit st) = (ok, h)"
      by (cases "inc E (m_limit st)")
    show ?thesis
    proof (cases ok)
      case False
      with True ih "1.prems" show ?thesis by (auto simp: unfold)
    next
      case ok: True
      with True ih "1.prems" obtain r st1 where
        b: "search_body E (st\<lparr>m_limit := h\<rparr>) = Inr (r, st1)"
        by (cases "search_body E (st\<lparr>m_limit := h\<rparr>)") (auto simp: unfold)
      note fr = search_body_frame [OF b]
      show ?thesis
      proof (cases r)
        case (Some res')
        with True ih ok b "1.prems" fr show ?thesis by (auto simp: unfold)
      next
        case None
        with True ih ok b "1.prems" have "search_loop E (n + 1) st1 = Inr (res, st')"
          by (simp add: unfold)
        from "1.IH" [OF True _ _ b _ None this] ih ok fr show ?thesis
          by simp
      qed
    qed
  qed
qed

lemma init_repair_assertions_frame:
  "m_config (fold (init_repair_assertion E) as st) = m_config st \<and>
   m_stats (fold (init_repair_assertion E) as st) = m_stats st \<and>
   m_limit (fold (init_repair_assertion E) as st) = m_limit st \<and>
   verbose_stream (fold (init_repair_assertion E) as st) = verbose_stream st \<and>
   m_rand (fold (init_repair_assertion E) as st) = m_rand st \<and>
   m_repair_up (fold (init_repair_assertion E) as st) = m_repair_up st"
  by (induction as arbitrary: st) (simp_all add: init_repair_assertion_def)

lemma init_repair_terms_frame:
  "init_repair_terms E ts st = Inr st' \<Longrightarrow>
     m_config st' = m_config st \<and> m_stats st' = m_stats st \<and> m_limit st' = m_limit st
     \<and> verbose_stream st' = verbose_stream st \<and> m_rand st' = m_rand st
     \<and> m_repair_up st' = m_repair_up st \<and> m_eval st' = m_eval st"
proof (induction E ts st rule: init_repair_terms.induct)
  case (1 E st)
  then show ?case by simp
next
  case (2 E ts st)
  then show ?case by simp
next
  case (3 E t ts st)
  from "3.prems" obtain c where c: "eval_is_correct E (m_eval st) t = Inr c"
    by (cases "eval_is_correct E (m_eval st) t") simp_all
  with "3.prems" "3.IH" [OF c] show ?case
    by (cases c) simp_all
qed

lemma init_repair_frame:
  assumes "init_repair E st = Inr st'"
  shows "m_config st' = m_config st \<and> m_stats st' = m_stats st \<and> m_limit st' = m_limit st
     \<and> verbose_stream st' = verbose_stream st \<and> m_rand st' = m_rand st"
  using init_repair_terms_frame [OF assms [unfolded init_repair_def]]
  by (simp add: init_repair_assertions_frame)

lemma reinit_eval_frame:
  assumes "reinit_eval E st = Inr st'"
  shows "m_config st' = m_config st \<and> m_stats st' = m_stats st \<and> m_limit st' = m_limit st
     \<and> verbose_stream st' = verbose_stream st"
proof -
  obtain ev' r' where ie: "init_eval (eval_ops E) (reinit_oracle E) (assertions (m_terms E))
      (m_eval st) (m_rand st) = (ev', r')"
    by (cases "init_eval (eval_ops E) (reinit_oracle E) (assertions (m_terms E))
      (m_eval st) (m_rand st)")
  with assms have "init_repair E (st\<lparr>m_eval := ev', m_rand := r'\<rparr>) = Inr st'"
    by (simp add: reinit_eval_def)
  from init_repair_frame [OF this] show ?thesis by simp
qed

lemma trace_frame:
  "m_config (trace E st) = m_config st \<and> m_stats (trace E st) = m_stats st
   \<and> m_limit (trace E st) = m_limit st"
  by (simp add: trace_def)


subsection \<open>\<^verbatim>\<open>operator()\<close>\<close>

text \<open>
  The \<^verbatim>\<open>do ... while\<close> loop of \<^verbatim>\<open>operator()\<close>: \<^verbatim>\<open>&&\<close> short-circuits, so the
  counter is incremented only when \<^verbatim>\<open>m.inc()\<close> holds, and it is incremented also
  when the comparison fails.
\<close>

function run_loop ::
  "('ev, 'r, 'h) env \<Rightarrow> ('ev, 'r, 'h) sls \<Rightarrow> error + (lbool \<times> ('ev, 'r, 'h) sls)" where
  "run_loop E st =
     (case search E st of
        Inl err \<Rightarrow> Inl err
      | Inr (res, st1) \<Rightarrow>
          if res \<noteq> l_undef then Inr (res, st1)
          else
            (case reinit_eval E (trace E st1) of
               Inl err \<Rightarrow> Inl err
             | Inr st2 \<Rightarrow>
                 (case inc E (m_limit st2) of
                    (False, h) \<Rightarrow> Inr (res, st2\<lparr>m_limit := h\<rparr>)
                  | (True, h) \<Rightarrow>
                      (let r = m_restarts (m_stats st2);
                           st3 = st2\<lparr>m_limit := h, m_stats := (m_stats st2)\<lparr>m_restarts := r + 1\<rparr>\<rparr>
                       in if r < m_max_restarts (m_config st3) then run_loop E st3
                          else Inr (res, st3)))))"
  by pat_completeness auto
termination
proof (relation "measure (\<lambda>(E, st). 4294967296 - unat (m_restarts (m_stats st)))")
  show "wf (measure (\<lambda>(E :: ('ev, 'r, 'h) env, st :: ('ev, 'r, 'h) sls).
          4294967296 - unat (m_restarts (m_stats st))))"
    by simp
next
  fix E :: "('ev, 'r, 'h) env" and st st1 st2 st3 :: "('ev, 'r, 'h) sls" and b res h r
  assume s: "search E st = Inr b" and b: "(res, st1) = b"
    and re: "reinit_eval E (trace E st1) = Inr st2"
    and r: "r = m_restarts (m_stats st2)"
    and st3: "st3 = st2\<lparr>m_limit := h, m_stats := (m_stats st2)\<lparr>m_restarts := r + 1\<rparr>\<rparr>"
    and lt: "r < m_max_restarts (m_config st3)"
  from s b have "search_loop E 0 st = Inr (res, st1)"
    by (simp add: search_def)
  from search_loop_frame [OF this]
  have "m_restarts (m_stats st1) = m_restarts (m_stats st)"
    by simp
  with reinit_eval_frame [OF re] r have r_eq: "r = m_restarts (m_stats st)"
    by (simp add: trace_frame)
  from lt have "unat (r + 1) = Suc (unat r)"
    by unat_arith
  moreover have "unat r < 4294967296"
    using unsigned_less [of r, where 'a = nat] by simp
  ultimately show "((E, st3), E, st) \<in> measure (\<lambda>(E, st). 4294967296 - unat (m_restarts (m_stats st)))"
    using r_eq st3 by simp
qed

declare run_loop.simps [simp del]

definition run ::
  "('ev, 'r, 'h) env \<Rightarrow> ('ev, 'r, 'h) sls \<Rightarrow> error + (lbool \<times> ('ev, 'r, 'h) sls)" where
  "run E st = run_loop E (st\<lparr>m_stats := \<lparr>m_moves = 0, m_restarts = 0\<rparr>\<rparr>)"


lemmas ex_defs = ex_x_def ex_not_def ex_y_def ex_and_def ex_v_def ex_u_def ex_terms_def
  ex_bval1_def ex_set_def ex_try_repair_def ex_init_eval_def ex_eval_def ex_rand_def ex_env_def
  ex_sls_def insert_Diff_if

lemmas ex_move_defs = rand_below_def try_repair_down_loop.simps try_repair_down_at_def
  try_repair_down_def try_repair_up_def get_num_args_def get_arg_def
  uset_insert_def uset_remove_def uset_pos_def insert_ids_def

lemmas ex_search_defs = search_def search_loop.simps search_body_def next_to_repair_def
  uset_empty_def uset_size_def elem_at_def eval_is_correct_def is_bool_def is_bv_def
  move_line_def bvval_eq_def bvval_get_def numeral_2_eq_2 [symmetric]

lemmas ex_init_defs = init_repair_def init_repair_assertion_def uset_reset_def uset_insert_def
  eval_is_correct_def is_bool_def is_bv_def bvval_eq_def

lemmas ex_run_defs = run_def run_loop.simps trace_def reinit_eval_def reinit_oracle_def
  should_keep_def random_bit_def

section \<open>Properties\<close>

subsection \<open>Repair sets\<close>

lemma set_uset_insert: "set (uset_insert x xs) = insert x (set xs)"
  by (auto simp: uset_insert_def)

lemma distinct_uset_insert: "distinct xs \<Longrightarrow> distinct (uset_insert x xs)"
  by (simp add: uset_insert_def)

lemma set_insert_ids: "set (insert_ids ids xs) = set ids \<union> set xs"
  unfolding insert_ids_def
  by (induction ids arbitrary: xs) (auto simp: set_uset_insert)

lemma distinct_insert_ids: "distinct xs \<Longrightarrow> distinct (insert_ids ids xs)"
  unfolding insert_ids_def
  by (induction ids arbitrary: xs) (simp_all add: distinct_uset_insert)

lemma uset_pos_less: "x \<in> set xs \<Longrightarrow> uset_pos x xs < length xs"
  unfolding uset_pos_def
  by (induction xs) auto

lemma uset_pos_nth: "x \<in> set xs \<Longrightarrow> xs ! uset_pos x xs = x"
  unfolding uset_pos_def
  by (induction xs) auto

lemma uset_pos_snoc: "x \<in> set ys \<Longrightarrow> uset_pos x (ys @ [y]) = uset_pos x ys"
  unfolding uset_pos_def
  by (induction ys) auto

lemma uset_remove_snoc:
  "uset_remove x (ys @ [y]) =
     (if x = y then ys else if x \<in> set ys then ys[uset_pos x ys := y] else ys @ [y])"
  by (auto simp: uset_remove_def uset_pos_snoc)

lemma set_uset_remove: "distinct xs \<Longrightarrow> set (uset_remove x xs) = set xs - {x}"
proof (cases xs rule: rev_cases)
  case Nil
  then show ?thesis by (simp add: uset_remove_def)
next
  case (snoc ys y)
  assume d: "distinct xs"
  show ?thesis
  proof (cases "x \<noteq> y \<and> x \<in> set ys")
    case True
    with d snoc have "set (ys[uset_pos x ys := y]) = insert y (set ys - {x})"
      by (simp add: set_update_distinct uset_pos_less uset_pos_nth)
    with True d snoc show ?thesis
      by (auto simp: uset_remove_snoc)
  next
    case False
    with d snoc show ?thesis
      by (auto simp: uset_remove_snoc)
  qed
qed

lemma set_uset_remove_subset: "set (uset_remove x xs) \<subseteq> set xs"
proof (cases xs rule: rev_cases)
  case Nil
  then show ?thesis by (simp add: uset_remove_def)
next
  case (snoc ys y)
  have "set (ys[uset_pos x ys := y]) \<subseteq> insert y (set ys)"
    by (rule set_update_subset_insert)
  with snoc show ?thesis
    by (auto simp: uset_remove_snoc)
qed

lemma distinct_uset_remove: "distinct xs \<Longrightarrow> distinct (uset_remove x xs)"
proof (cases xs rule: rev_cases)
  case Nil
  then show ?thesis by (simp add: uset_remove_def)
next
  case (snoc ys y)
  assume "distinct xs"
  with snoc show ?thesis
    by (auto simp: uset_remove_snoc distinct_list_update)
qed


subsection \<open>No id is held twice\<close>

text \<open>
  \<^verbatim>\<open>init_repair\<close> establishes, and every move keeps, that neither set holds an id
  twice; so \<^verbatim>\<open>remove\<close> takes the id out of the set.
\<close>

lemma try_repair_down_at_distinct:
  "try_repair_down_at E e i st = (ok, st') \<Longrightarrow> sets_distinct st \<Longrightarrow> sets_distinct st'"
  by (auto simp: try_repair_down_at_def sets_distinct_def distinct_uset_insert distinct_insert_ids
      Let_def split: prod.splits if_splits)

lemma try_repair_down_loop_distinct:
  "try_repair_down_loop E e s n i st = (ok, st') \<Longrightarrow> sets_distinct st \<Longrightarrow> sets_distinct st'"
proof (induction E e s n i st rule: try_repair_down_loop.induct)
  case (1 E e s n i st)
  note unfold = try_repair_down_loop.simps [of E e s n i st]
  show ?case
  proof (cases "i < n")
    case False
    with "1.prems" unfold show ?thesis by simp
  next
    case lt: True
    obtain b st1 where at: "try_repair_down_at E e (((i + s) mod 4294967296) mod n) st = (b, st1)"
      by (cases "try_repair_down_at E e (((i + s) mod 4294967296) mod n) st")
    from try_repair_down_at_distinct [OF at "1.prems"(2)] have d1: "sets_distinct st1" .
    show ?thesis
    proof (cases b)
      case True
      with "1.prems"(1) unfold lt at d1 show ?thesis by simp
    next
      case False
      with "1.prems"(1) unfold lt at
      have "try_repair_down_loop E e s n (i + 1) st1 = (ok, st')" by simp
      from "1.IH" [OF lt at [symmetric] _ this d1] False show ?thesis by simp
    qed
  qed
qed

lemma try_repair_down_distinct:
  assumes "sets_distinct st"
  shows "sets_distinct (try_repair_down E e st)"
proof (cases "0 < get_num_args e")
  case False
  with assms show ?thesis
    by (simp add: try_repair_down_def sets_distinct_def distinct_uset_insert distinct_uset_remove)
next
  case True
  obtain s r' where rb: "rand_below (rand_ops E) (m_rand st) (get_num_args e) = (s, r')"
    by (cases "rand_below (rand_ops E) (m_rand st) (get_num_args e)")
  obtain ok st1 where lp:
    "try_repair_down_loop E e s (get_num_args e) 0 (st\<lparr>m_rand := r'\<rparr>) = (ok, st1)"
    by (cases "try_repair_down_loop E e s (get_num_args e) 0 (st\<lparr>m_rand := r'\<rparr>)")
  from assms have "sets_distinct (st\<lparr>m_rand := r'\<rparr>)"
    by (simp add: sets_distinct_def)
  from try_repair_down_loop_distinct [OF lp this] have "sets_distinct st1" .
  with True rb lp show ?thesis
    by (cases ok)
      (simp_all add: try_repair_down_def sets_distinct_def distinct_uset_insert
        distinct_uset_remove)
qed

lemma try_repair_up_distinct:
  "sets_distinct st \<Longrightarrow> sets_distinct (try_repair_up E e st)"
  by (simp add: try_repair_up_def sets_distinct_def Let_def distinct_uset_insert
      distinct_uset_remove distinct_insert_ids)

lemma search_body_distinct:
  assumes sb: "search_body E st = Inr (r, st')" and d: "sets_distinct st"
  shows "sets_distinct st'"
proof -
  let ?st1 = "st\<lparr>m_stats := (m_stats st)\<lparr>m_moves := m_moves (m_stats st) + 1\<rparr>\<rparr>"
  obtain dn eo st2 where nx: "next_to_repair E ?st1 = (dn, eo, st2)"
    by (cases "next_to_repair E ?st1") auto
  from next_to_repair_frame [OF nx] d have d2: "sets_distinct st2"
    by (simp add: sets_distinct_def)
  show ?thesis
  proof (cases eo)
    case None
    with sb nx d2 show ?thesis by (simp add: search_body_def)
  next
    case (Some e)
    with sb nx obtain c where c: "eval_is_correct E (m_eval st2) e = Inr c"
      by (auto simp: search_body_def split: sum.splits)
    define st3 where "st3 = (if 20 \<le> verbosity_level E
                           then st2\<lparr>verbose_stream := verbose_stream st2 @
                                      [move_line E (m_eval st2) dn e c]\<rparr>
                           else st2)"
    from d2 have d3: "sets_distinct st3"
      by (simp add: st3_def sets_distinct_def)
    from sb nx Some c have st': "st' =
        (if c then
           (if dn
            then st3\<lparr>m_repair_down := uset_remove (get_id e) (m_repair_down st3)\<rparr>
            else st3\<lparr>m_repair_up := uset_remove (get_id e) (m_repair_up st3)\<rparr>)
         else if dn then try_repair_down E e st3
         else try_repair_up E e st3)"
      by (auto simp: search_body_def st3_def Let_def)
    show ?thesis
      unfolding st'
      using d3 try_repair_down_distinct [OF d3, of E e] try_repair_up_distinct [OF d3, of E e]
      by (simp add: sets_distinct_def distinct_uset_remove)
  qed
qed

lemma search_loop_distinct:
  "search_loop E n st = Inr (res, st') \<Longrightarrow> sets_distinct st \<Longrightarrow> sets_distinct st'"
proof (induction E n st rule: search_loop.induct)
  case (1 E n st)
  note unfold = search_loop.simps [of E n st]
  show ?case
  proof (cases "n < m_max_repairs (m_config st)")
    case False
    with "1.prems" show ?thesis by (simp add: unfold)
  next
    case True
    obtain ok h where ih: "inc E (m_limit st) = (ok, h)"
      by (cases "inc E (m_limit st)")
    from "1.prems"(2) have dh: "sets_distinct (st\<lparr>m_limit := h\<rparr>)"
      by (simp add: sets_distinct_def)
    show ?thesis
    proof (cases ok)
      case False
      with True ih "1.prems"(1) dh show ?thesis by (auto simp: unfold)
    next
      case ok: True
      with True ih "1.prems"(1) obtain r st1 where
        b: "search_body E (st\<lparr>m_limit := h\<rparr>) = Inr (r, st1)"
        by (cases "search_body E (st\<lparr>m_limit := h\<rparr>)") (auto simp: unfold)
      note d1 = search_body_distinct [OF b dh]
      show ?thesis
      proof (cases r)
        case (Some res')
        with True ih ok b "1.prems"(1) d1 show ?thesis by (auto simp: unfold)
      next
        case None
        with True ih ok b "1.prems"(1) have "search_loop E (n + 1) st1 = Inr (res, st')"
          by (simp add: unfold)
        from "1.IH" [OF True _ _ b _ None this d1] ih ok show ?thesis
          by simp
      qed
    qed
  qed
qed

lemma search_distinct:
  "search E st = Inr (res, st') \<Longrightarrow> sets_distinct st \<Longrightarrow> sets_distinct st'"
  unfolding search_def by (rule search_loop_distinct)

lemma init_repair_assertions_distinct:
  "sets_distinct st \<Longrightarrow> sets_distinct (fold (init_repair_assertion E) as st)"
  by (induction as arbitrary: st)
    (simp_all add: init_repair_assertion_def sets_distinct_def distinct_uset_insert)

lemma init_repair_terms_distinct:
  "init_repair_terms E ts st = Inr st' \<Longrightarrow> sets_distinct st \<Longrightarrow> sets_distinct st'"
proof (induction E ts st rule: init_repair_terms.induct)
  case (1 E st)
  then show ?case by simp
next
  case (2 E ts st)
  then show ?case by simp
next
  case (3 E t ts st)
  from "3.prems"(1) obtain c where c: "eval_is_correct E (m_eval st) t = Inr c"
    by (cases "eval_is_correct E (m_eval st) t") simp_all
  from "3.prems"(2) have "sets_distinct
      (if \<not> c then st\<lparr>m_repair_down := uset_insert (get_id t) (m_repair_down st)\<rparr> else st)"
    by (simp add: sets_distinct_def distinct_uset_insert)
  with "3.prems"(1) "3.IH" [OF c] c show ?case
    by simp
qed

lemma init_repair_distinct:
  assumes "init_repair E st = Inr st'"
  shows "sets_distinct st'"
proof -
  have "sets_distinct (st\<lparr>m_repair_down := uset_reset, m_repair_up := uset_reset\<rparr>)"
    by (simp add: sets_distinct_def uset_reset_def)
  from init_repair_terms_distinct [OF assms [unfolded init_repair_def]
      init_repair_assertions_distinct [OF this]]
  show ?thesis .
qed

lemma reinit_eval_distinct:
  assumes "reinit_eval E st = Inr st'"
  shows "sets_distinct st'"
proof -
  obtain ev' r' where ie: "init_eval (eval_ops E) (reinit_oracle E) (assertions (m_terms E))
      (m_eval st) (m_rand st) = (ev', r')"
    by (cases "init_eval (eval_ops E) (reinit_oracle E) (assertions (m_terms E))
      (m_eval st) (m_rand st)")
  with assms have "init_repair E (st\<lparr>m_eval := ev', m_rand := r'\<rparr>) = Inr st'"
    by (simp add: reinit_eval_def)
  from init_repair_distinct [OF this] show ?thesis .
qed


subsection \<open>\<^verbatim>\<open>next_to_repair\<close>\<close>

lemma rand_below_less: "0 < u \<Longrightarrow> fst (rand_below R r u) < u"
  by (simp add: rand_below_def split: prod.splits)

text \<open>
  Claim C4. \<^verbatim>\<open>next_to_repair\<close> returns a node drawn from \<open>down\<close> whenever \<open>down\<close>
  is not empty, a node drawn from \<open>up\<close> only when \<open>down\<close> is empty and \<open>up\<close> is not,
  and no node exactly when both sets are empty; the flag is true exactly when the node
  comes from \<open>down\<close>. The ids in the two sets are ids that \<^verbatim>\<open>term(id)\<close> knows.
\<close>

theorem next_to_repair_pick:
  assumes known: "\<forall>i \<in> set (m_repair_down st) \<union> set (m_repair_up st). known_id (m_terms E) i"
    and nx: "next_to_repair E st = (down, eo, st')"
  shows "(m_repair_down st \<noteq> [] \<longrightarrow>
           (\<exists>k < length (m_repair_down st). eo = term_at (m_terms E) (m_repair_down st ! k)) \<and>
           (\<exists>e. eo = Some e \<and> get_id e \<in> set (m_repair_down st))) \<and>
         (m_repair_down st = [] \<and> m_repair_up st \<noteq> [] \<longrightarrow>
           (\<exists>k < length (m_repair_up st). eo = term_at (m_terms E) (m_repair_up st ! k)) \<and>
           (\<exists>e. eo = Some e \<and> get_id e \<in> set (m_repair_up st))) \<and>
         (eo = None \<longleftrightarrow> m_repair_down st = [] \<and> m_repair_up st = []) \<and>
         (down \<longleftrightarrow> m_repair_down st \<noteq> [])"
proof -
  have pick: "\<exists>e. term_at (m_terms E) (xs ! k) = Some e \<and> get_id e \<in> set xs"
    if "k < length xs" and "set xs \<subseteq> set (m_repair_down st) \<union> set (m_repair_up st)" for xs k
  proof -
    from that have in_xs: "xs ! k \<in> set xs"
      by simp
    with that known have "known_id (m_terms E) (xs ! k)"
      by blast
    with in_xs show ?thesis
      by (auto simp: known_id_def split: option.splits)
  qed
  show ?thesis
  proof (cases "m_repair_down st = []")
    case False
    let ?k = "fst (rand_below (rand_ops E) (m_rand st) (length (m_repair_down st)))"
    from False have k: "?k < length (m_repair_down st)"
      by (simp add: rand_below_less)
    from nx False have eo: "eo = term_at (m_terms E) (m_repair_down st ! ?k)" and d: "down"
      by (auto simp: next_to_repair_def uset_empty_def uset_size_def elem_at_def split: prod.splits)
    from pick [OF k] eo k d False show ?thesis by auto
  next
    case dn: True
    show ?thesis
    proof (cases "m_repair_up st = []")
      case True
      with dn nx show ?thesis
        by (auto simp: next_to_repair_def uset_empty_def)
    next
      case False
      let ?k = "fst (rand_below (rand_ops E) (m_rand st) (length (m_repair_up st)))"
      from False have k: "?k < length (m_repair_up st)"
        by (simp add: rand_below_less)
      from nx dn False have eo: "eo = term_at (m_terms E) (m_repair_up st ! ?k)" and d: "\<not> down"
        by (auto simp: next_to_repair_def uset_empty_def uset_size_def elem_at_def split: prod.splits)
      from pick [OF k] eo k d dn False show ?thesis by auto
    qed
  qed
qed


theorem next_to_repair_pick_witness:
  "list_all (known_id (m_terms ex_env)) (m_repair_down ex_sls @ m_repair_up ex_sls) \<and>
   fst (next_to_repair ex_env ex_sls) \<and>
   fst (snd (next_to_repair ex_env ex_sls)) = Some ex_not \<and>
   get_id ex_not \<in> set (m_repair_down ex_sls)"
proof -
  have k: "\<forall>i \<in> set (m_repair_down ex_sls) \<union> set (m_repair_up ex_sls). known_id (m_terms ex_env) i"
    by (simp add: known_id_def ex_defs)
  obtain d eo st' where nx: "next_to_repair ex_env ex_sls = (d, eo, st')"
    by (cases "next_to_repair ex_env ex_sls")
  have dn: "m_repair_down ex_sls \<noteq> []" and "m_repair_down ex_sls ! 0 = 1"
    and "term_at (m_terms ex_env) 1 = Some ex_not"
    by (simp_all add: ex_defs)
  with next_to_repair_pick [OF k nx] nx k show ?thesis
    by (auto simp: list_all_iff ex_sls_def)
qed


subsection \<open>The repair moves\<close>

lemma try_repair_down_no_children:
  "get_num_args e = 0 \<Longrightarrow>
     try_repair_down E e st =
       st\<lparr>m_repair_down := uset_remove (get_id e) (m_repair_down st),
          m_repair_up := uset_insert (get_id e) (m_repair_up st)\<rparr>"
  by (simp add: try_repair_down_def)

text \<open>
  Claim C10. For a node without children \<^verbatim>\<open>try_repair_down\<close> attempts no child
  repair (the evaluator and the generator are untouched), removes the node from \<open>down\<close>
  and inserts it into \<open>up\<close>.
\<close>

theorem try_repair_down_no_args:
  assumes "get_num_args e = 0"
  shows "try_repair_down E e st =
           st\<lparr>m_repair_down := uset_remove (get_id e) (m_repair_down st),
              m_repair_up := uset_insert (get_id e) (m_repair_up st)\<rparr> \<and>
         m_eval (try_repair_down E e st) = m_eval st \<and>
         m_rand (try_repair_down E e st) = m_rand st \<and>
         get_id e \<in> set (m_repair_up (try_repair_down E e st)) \<and>
         (distinct (m_repair_down st) \<longrightarrow> get_id e \<notin> set (m_repair_down (try_repair_down E e st)))"
  using assms
  by (simp add: try_repair_down_no_children set_uset_insert set_uset_remove)

theorem try_repair_down_no_args_witness:
  "get_num_args ex_x = 0 \<and> distinct [0 :: nat, 1] \<and>
   try_repair_down ex_env ex_x (ex_sls\<lparr>m_repair_down := [0, 1]\<rparr>) =
     ex_sls\<lparr>m_repair_down := [1], m_repair_up := [0]\<rparr>"
proof -
  have n: "get_num_args ex_x = 0"
    by (simp add: get_num_args_def ex_x_def)
  from try_repair_down_no_args [OF n, of ex_env "ex_sls\<lparr>m_repair_down := [0, 1]\<rparr>"] n
  show ?thesis
    by (simp add: ex_sls_def ex_x_def uset_remove_def uset_insert_def uset_pos_def)
qed

lemma try_repair_down_at_success:
  assumes "try_repair_down_at E e i st = (True, st')"
  shows "fst (try_repair (eval_ops E) (m_eval st) e i) \<and>
         m_eval st' = snd (try_repair (eval_ops E) (m_eval st) e i) \<and>
         set (m_repair_down st') = insert (get_id (get_arg e i)) (set (m_repair_down st)) \<and>
         set (m_repair_up st') =
           get_id ` set (parents (m_terms E) (get_arg e i)) \<union> set (m_repair_up st)"
  using assms
  by (auto simp: try_repair_down_at_def Let_def set_uset_insert set_insert_ids
      split: prod.splits if_splits)

lemma try_repair_down_at_failure:
  assumes "try_repair_down_at E e i st = (False, st')"
  shows "st' = st\<lparr>m_eval := snd (try_repair (eval_ops E) (m_eval st) e i)\<rparr> \<and>
         \<not> fst (try_repair (eval_ops E) (m_eval st) e i)"
  using assms
  by (auto simp: try_repair_down_at_def Let_def split: prod.splits if_splits)

lemma try_in_order_success:
  "try_in_order E e js st = (True, st') \<Longrightarrow>
     \<exists>j \<in> set js. \<exists>ev. fst (try_repair (eval_ops E) ev e j) \<and>
        m_eval st' = snd (try_repair (eval_ops E) ev e j) \<and>
        set (m_repair_down st') = insert (get_id (get_arg e j)) (set (m_repair_down st)) \<and>
        set (m_repair_up st') =
           get_id ` set (parents (m_terms E) (get_arg e j)) \<union> set (m_repair_up st)"
proof (induction js arbitrary: st)
  case Nil
  then show ?case by simp
next
  case (Cons j js)
  obtain b st1 where at: "try_repair_down_at E e j st = (b, st1)"
    by (cases "try_repair_down_at E e j st")
  show ?case
  proof (cases b)
    case True
    with at Cons.prems have "st' = st1" by simp
    with at True try_repair_down_at_success [of E e j st st1] show ?thesis
      by auto
  next
    case False
    with at Cons.prems have "try_in_order E e js st1 = (True, st')" by simp
    from Cons.IH [OF this] try_repair_down_at_failure [of E e j st st1] at False
    show ?thesis by auto
  qed
qed

lemma try_in_order_failure:
  "try_in_order E e js st = (False, st') \<Longrightarrow>
     m_repair_down st' = m_repair_down st \<and> m_repair_up st' = m_repair_up st"
proof (induction js arbitrary: st)
  case Nil
  then show ?case by simp
next
  case (Cons j js)
  obtain b st1 where at: "try_repair_down_at E e j st = (b, st1)"
    by (cases "try_repair_down_at E e j st")
  with Cons.prems have b: "\<not> b" and "try_in_order E e js st1 = (False, st')"
    by (cases b; simp)+
  from Cons.IH [OF this(2)] try_repair_down_at_failure [of E e j st st1] at b
  show ?case by simp
qed

lemma try_repair_down_loop_in_order:
  "s < n \<Longrightarrow> n \<le> 2147483648 \<Longrightarrow>
     try_repair_down_loop E e s n i st =
       try_in_order E e (map (\<lambda>k. (s + k) mod n) [i..<n]) st"
proof (induction E e s n i st rule: try_repair_down_loop.induct)
  case (1 E e s n i st)
  note unfold = try_repair_down_loop.simps [of E e s n i st]
  show ?case
  proof (cases "i < n")
    case False
    then show ?thesis by (simp add: unfold)
  next
    case True
    with "1.prems" have idx: "(i + s) mod 4294967296 mod n = (s + i) mod n"
      by (simp add: add.commute)
    from True have upt: "[i..<n] = i # [Suc i..<n]"
      by (rule upt_conv_Cons)
    obtain b st1 where at: "try_repair_down_at E e ((s + i) mod n) st = (b, st1)"
      by (cases "try_repair_down_at E e ((s + i) mod n) st")
    show ?thesis
    proof (cases b)
      case True
      with \<open>i < n\<close> idx upt at show ?thesis by (simp add: unfold)
    next
      case False
      from "1.IH" [of False st1] \<open>i < n\<close> "1.prems" idx at False
      have "try_repair_down_loop E e s n (i + 1) st1 =
              try_in_order E e (map (\<lambda>k. (s + k) mod n) [i + 1..<n]) st1"
        by simp
      with \<open>i < n\<close> idx upt at False show ?thesis by (simp add: unfold)
    qed
  qed
qed

lemma try_repair_down_loop_success:
  "try_repair_down_loop E e s n i st = (True, st') \<Longrightarrow>
     \<exists>j < n. \<exists>ev. fst (try_repair (eval_ops E) ev e j) \<and>
        m_eval st' = snd (try_repair (eval_ops E) ev e j) \<and>
        set (m_repair_down st') = insert (get_id (get_arg e j)) (set (m_repair_down st)) \<and>
        set (m_repair_up st') =
           get_id ` set (parents (m_terms E) (get_arg e j)) \<union> set (m_repair_up st)"
proof (induction E e s n i st rule: try_repair_down_loop.induct)
  case (1 E e s n i st)
  note unfold = try_repair_down_loop.simps [of E e s n i st]
  show ?case
  proof (cases "i < n")
    case False
    with "1.prems" show ?thesis by (simp add: unfold)
  next
    case True
    let ?j = "(i + s) mod 4294967296 mod n"
    from True have j: "?j < n" by simp
    obtain b st1 where at: "try_repair_down_at E e ?j st = (b, st1)"
      by (cases "try_repair_down_at E e ?j st")
    show ?thesis
    proof (cases b)
      case True
      with \<open>i < n\<close> at "1.prems" have "st' = st1" by (simp add: unfold)
      with at True try_repair_down_at_success [of E e ?j st st1] j show ?thesis
        by (intro exI [of _ ?j] conjI exI [of _ "m_eval st"]) simp_all
    next
      case False
      with \<open>i < n\<close> at "1.prems" have "try_repair_down_loop E e s n (i + 1) st1 = (True, st')"
        by (simp add: unfold)
      with "1.IH" [of False st1] \<open>i < n\<close> at False
      obtain j ev where "j < n" "fst (try_repair (eval_ops E) ev e j)"
        "m_eval st' = snd (try_repair (eval_ops E) ev e j)"
        "set (m_repair_down st') = insert (get_id (get_arg e j)) (set (m_repair_down st1))"
        "set (m_repair_up st') =
           get_id ` set (parents (m_terms E) (get_arg e j)) \<union> set (m_repair_up st1)"
        by auto
      with try_repair_down_at_failure [of E e ?j st st1] at False show ?thesis
        by auto
    qed
  qed
qed

lemma try_repair_down_at_answer:
  "try_repair (eval_ops E) (m_eval st) e i = (True, ev') \<Longrightarrow>
     try_repair_down_at E e i st =
       (True, st\<lparr>m_eval := ev',
                 m_repair_down := uset_insert (get_id (get_arg e i)) (m_repair_down st),
                 m_repair_up :=
                   insert_ids (map get_id (parents (m_terms E) (get_arg e i))) (m_repair_up st)\<rparr>)"
  by (simp add: try_repair_down_at_def Let_def)

lemma try_repair_down_at_refusal:
  "try_repair (eval_ops E) (m_eval st) e i = (False, ev') \<Longrightarrow>
     try_repair_down_at E e i st = (False, st\<lparr>m_eval := ev'\<rparr>)"
  by (simp add: try_repair_down_at_def Let_def)

lemma try_repair_down_loop_first:
  "first_repair (eval_ops E) e (map (\<lambda>k. ((k + s) mod 4294967296) mod n) [i..<n]) (m_eval st)
     = (Some j, ev') \<Longrightarrow>
   j < n \<and>
   try_repair_down_loop E e s n i st =
     (True, st\<lparr>m_eval := ev',
               m_repair_down := uset_insert (get_id (get_arg e j)) (m_repair_down st),
               m_repair_up :=
                 insert_ids (map get_id (parents (m_terms E) (get_arg e j))) (m_repair_up st)\<rparr>)"
proof (induction E e s n i st rule: try_repair_down_loop.induct)
  case (1 E e s n i st)
  note unfold = try_repair_down_loop.simps [of E e s n i st]
  show ?case
  proof (cases "i < n")
    case False
    with "1.prems" show ?thesis by simp
  next
    case True
    let ?j = "(i + s) mod 4294967296 mod n"
    from True have j: "?j < n" by simp
    from True have upt: "[i..<n] = i # [Suc i..<n]"
      by (rule upt_conv_Cons)
    obtain b ev1 where tr: "try_repair (eval_ops E) (m_eval st) e ?j = (b, ev1)"
      by (cases "try_repair (eval_ops E) (m_eval st) e ?j")
    show ?thesis
    proof (cases b)
      case True
      with "1.prems" upt tr have "j = ?j" "ev' = ev1" by simp_all
      with try_repair_down_at_answer [of E st e ?j ev1] tr True \<open>i < n\<close> j show ?thesis
        by (simp add: unfold)
    next
      case False
      let ?st1 = "st\<lparr>m_eval := ev1\<rparr>"
      from tr False have at: "try_repair_down_at E e ?j st = (False, ?st1)"
        by (simp add: try_repair_down_at_refusal)
      from "1.prems" upt tr False
      have "first_repair (eval_ops E) e (map (\<lambda>k. ((k + s) mod 4294967296) mod n) [i + 1..<n])
              (m_eval ?st1) = (Some j, ev')"
        by simp
      from "1.IH" [OF \<open>i < n\<close> at [symmetric] _ this] False
      have "j < n \<and> try_repair_down_loop E e s n (i + 1) ?st1 =
        (True, ?st1\<lparr>m_eval := ev',
               m_repair_down := uset_insert (get_id (get_arg e j)) (m_repair_down ?st1),
               m_repair_up :=
                 insert_ids (map get_id (parents (m_terms E) (get_arg e j))) (m_repair_up ?st1)\<rparr>)"
        by simp
      with \<open>i < n\<close> at show ?thesis
        by (simp add: unfold)
    qed
  qed
qed

lemma try_repair_down_first:
  assumes n: "0 < get_num_args e"
    and rb: "rand_below (rand_ops E) (m_rand st) (get_num_args e) = (s, r')"
    and fr: "first_repair (eval_ops E) e (down_order s (get_num_args e)) (m_eval st) = (Some j, ev')"
  shows "j < get_num_args e \<and>
         try_repair_down E e st =
           st\<lparr>m_rand := r', m_eval := ev',
              m_repair_down := uset_insert (get_id (get_arg e j)) (m_repair_down st),
              m_repair_up :=
                insert_ids (map get_id (parents (m_terms E) (get_arg e j))) (m_repair_up st)\<rparr>"
proof -
  from fr have "first_repair (eval_ops E) e
      (map (\<lambda>k. ((k + s) mod 4294967296) mod get_num_args e) [0..<get_num_args e])
      (m_eval (st\<lparr>m_rand := r'\<rparr>)) = (Some j, ev')"
    by (simp add: down_order_def)
  from try_repair_down_loop_first [OF this] n rb show ?thesis
    by (simp add: try_repair_down_def)
qed

lemma search_body_down_first:
  assumes nx: "next_to_repair E (st\<lparr>m_stats := (m_stats st)\<lparr>m_moves := m_moves (m_stats st) + 1\<rparr>\<rparr>)
                 = (True, Some e, st2)"
    and c: "eval_is_correct E (m_eval st2) e = Inr False"
    and n: "0 < get_num_args e"
    and rb: "rand_below (rand_ops E) (m_rand st2) (get_num_args e) = (s, r')"
    and fr: "first_repair (eval_ops E) e (down_order s (get_num_args e)) (m_eval st2) = (Some j, ev')"
  shows "\<exists>st'. search_body E st = Inr (None, st') \<and> m_eval st' = ev' \<and>
           get_id (get_arg e j) \<in> set (m_repair_down st') \<and>
           (\<forall>p \<in> set (parents (m_terms E) (get_arg e j)). get_id p \<in> set (m_repair_up st'))"
proof -
  define st3 where "st3 = (if 20 \<le> verbosity_level E
                           then st2\<lparr>verbose_stream := verbose_stream st2 @
                                      [move_line E (m_eval st2) True e False]\<rparr>
                           else st2)"
  have e3: "m_eval st3 = m_eval st2" "m_rand st3 = m_rand st2"
    by (simp_all add: st3_def)
  from nx c have sb: "search_body E st = Inr (None, try_repair_down E e st3)"
    by (simp add: search_body_def st3_def Let_def)
  from try_repair_down_first [of e E st3 s r' j ev'] n rb fr e3
  have "try_repair_down E e st3 =
           st3\<lparr>m_rand := r', m_eval := ev',
              m_repair_down := uset_insert (get_id (get_arg e j)) (m_repair_down st3),
              m_repair_up :=
                insert_ids (map get_id (parents (m_terms E) (get_arg e j))) (m_repair_up st3)\<rparr>"
    by simp
  with sb show ?thesis
    by (simp add: set_uset_insert set_insert_ids)
qed

lemma search_body_up_repair:
  assumes nx: "next_to_repair E (st\<lparr>m_stats := (m_stats st)\<lparr>m_moves := m_moves (m_stats st) + 1\<rparr>\<rparr>)
                 = (False, Some e, st2)"
    and c: "eval_is_correct E (m_eval st2) e = Inr False"
    and na: "\<not> is_assertion (m_terms E) e"
  shows "\<exists>st'. search_body E st = Inr (None, st') \<and>
           m_eval st' = repair_up (eval_ops E) (m_eval st2) e \<and>
           (\<forall>p \<in> set (parents (m_terms E) e). get_id p \<in> set (m_repair_up st'))"
proof -
  define st3 where "st3 = (if 20 \<le> verbosity_level E
                           then st2\<lparr>verbose_stream := verbose_stream st2 @
                                      [move_line E (m_eval st2) False e False]\<rparr>
                           else st2)"
  have e3: "m_eval st3 = m_eval st2"
    by (simp add: st3_def)
  from nx c have sb: "search_body E st = Inr (None, try_repair_up E e st3)"
    by (simp add: search_body_def st3_def Let_def)
  from na e3 show ?thesis
    unfolding sb by (simp add: try_repair_up_def Let_def set_insert_ids)
qed

text \<open>
  Claim C3. When a move changes a node, the parents of the changed node are in \<open>up\<close>
  when the move ends. Whenever the evaluator answers \<open>true\<close> to
  \<^verbatim>\<open>try_repair(e, i)\<close>, \<^verbatim>\<open>try_repair_down(e, i)\<close> reports the success, the child
  \<open>i\<close> is in \<open>down\<close> and all its parents are in \<open>up\<close>. In a down repair of
  \<open>e\<close>, when the evaluator, asked for the children in the order of the loop, first
  answers \<open>true\<close> for the child \<open>j\<close>: the move ends in the evaluator state of that
  answer, with the child \<open>j\<close> in \<open>down\<close> and all its parents in \<open>up\<close>; so does
  the round of \<^verbatim>\<open>search\<close> that picks \<open>e\<close> from \<open>down\<close> and finds it not
  correct. In an up repair of a node that is not an assertion, the value is the one
  \<^verbatim>\<open>repair_up\<close> leaves and all parents of the node are in \<open>up\<close>, also at the end
  of the round of \<^verbatim>\<open>search\<close> that picks the node from \<open>up\<close>.
\<close>

theorem changed_node_parents_in_up:
  "(try_repair (eval_ops E) (m_eval st) e i = (True, ev') \<longrightarrow>
      fst (try_repair_down_at E e i st) \<and>
      m_eval (snd (try_repair_down_at E e i st)) = ev' \<and>
      get_id (get_arg e i) \<in> set (m_repair_down (snd (try_repair_down_at E e i st))) \<and>
      (\<forall>p \<in> set (parents (m_terms E) (get_arg e i)).
         get_id p \<in> set (m_repair_up (snd (try_repair_down_at E e i st))))) \<and>
   (0 < get_num_args e \<and>
    rand_below (rand_ops E) (m_rand st) (get_num_args e) = (s, r') \<and>
    first_repair (eval_ops E) e (down_order s (get_num_args e)) (m_eval st) = (Some j, ev') \<longrightarrow>
      j < get_num_args e \<and>
      m_eval (try_repair_down E e st) = ev' \<and>
      get_id (get_arg e j) \<in> set (m_repair_down (try_repair_down E e st)) \<and>
      (\<forall>p \<in> set (parents (m_terms E) (get_arg e j)).
         get_id p \<in> set (m_repair_up (try_repair_down E e st)))) \<and>
   (\<not> is_assertion (m_terms E) e \<longrightarrow>
      m_eval (try_repair_up E e st) = repair_up (eval_ops E) (m_eval st) e \<and>
      (\<forall>p \<in> set (parents (m_terms E) e). get_id p \<in> set (m_repair_up (try_repair_up E e st)))) \<and>
   (next_to_repair E (st\<lparr>m_stats := (m_stats st)\<lparr>m_moves := m_moves (m_stats st) + 1\<rparr>\<rparr>)
      = (True, Some e, st2) \<and>
    eval_is_correct E (m_eval st2) e = Inr False \<and>
    0 < get_num_args e \<and>
    rand_below (rand_ops E) (m_rand st2) (get_num_args e) = (s, r') \<and>
    first_repair (eval_ops E) e (down_order s (get_num_args e)) (m_eval st2) = (Some j, ev') \<longrightarrow>
      (\<exists>st'. search_body E st = Inr (None, st') \<and> m_eval st' = ev' \<and>
         get_id (get_arg e j) \<in> set (m_repair_down st') \<and>
         (\<forall>p \<in> set (parents (m_terms E) (get_arg e j)). get_id p \<in> set (m_repair_up st')))) \<and>
   (next_to_repair E (st\<lparr>m_stats := (m_stats st)\<lparr>m_moves := m_moves (m_stats st) + 1\<rparr>\<rparr>)
      = (False, Some e, st2) \<and>
    eval_is_correct E (m_eval st2) e = Inr False \<and>
    \<not> is_assertion (m_terms E) e \<longrightarrow>
      (\<exists>st'. search_body E st = Inr (None, st') \<and>
         m_eval st' = repair_up (eval_ops E) (m_eval st2) e \<and>
         (\<forall>p \<in> set (parents (m_terms E) e). get_id p \<in> set (m_repair_up st'))))"
proof (intro conjI)
  show "try_repair (eval_ops E) (m_eval st) e i = (True, ev') \<longrightarrow>
      fst (try_repair_down_at E e i st) \<and>
      m_eval (snd (try_repair_down_at E e i st)) = ev' \<and>
      get_id (get_arg e i) \<in> set (m_repair_down (snd (try_repair_down_at E e i st))) \<and>
      (\<forall>p \<in> set (parents (m_terms E) (get_arg e i)).
         get_id p \<in> set (m_repair_up (snd (try_repair_down_at E e i st))))"
    by (simp add: try_repair_down_at_answer set_uset_insert set_insert_ids)
next
  show "0 < get_num_args e \<and>
    rand_below (rand_ops E) (m_rand st) (get_num_args e) = (s, r') \<and>
    first_repair (eval_ops E) e (down_order s (get_num_args e)) (m_eval st) = (Some j, ev') \<longrightarrow>
      j < get_num_args e \<and>
      m_eval (try_repair_down E e st) = ev' \<and>
      get_id (get_arg e j) \<in> set (m_repair_down (try_repair_down E e st)) \<and>
      (\<forall>p \<in> set (parents (m_terms E) (get_arg e j)).
         get_id p \<in> set (m_repair_up (try_repair_down E e st)))"
  proof (intro impI, elim conjE)
    assume "0 < get_num_args e"
      and "rand_below (rand_ops E) (m_rand st) (get_num_args e) = (s, r')"
      and "first_repair (eval_ops E) e (down_order s (get_num_args e)) (m_eval st) = (Some j, ev')"
    from try_repair_down_first [OF this]
    show "j < get_num_args e \<and>
      m_eval (try_repair_down E e st) = ev' \<and>
      get_id (get_arg e j) \<in> set (m_repair_down (try_repair_down E e st)) \<and>
      (\<forall>p \<in> set (parents (m_terms E) (get_arg e j)).
         get_id p \<in> set (m_repair_up (try_repair_down E e st)))"
      by (simp add: set_uset_insert set_insert_ids)
  qed
next
  show "\<not> is_assertion (m_terms E) e \<longrightarrow>
      m_eval (try_repair_up E e st) = repair_up (eval_ops E) (m_eval st) e \<and>
      (\<forall>p \<in> set (parents (m_terms E) e). get_id p \<in> set (m_repair_up (try_repair_up E e st)))"
    by (simp add: try_repair_up_def Let_def set_insert_ids)
next
  show "next_to_repair E (st\<lparr>m_stats := (m_stats st)\<lparr>m_moves := m_moves (m_stats st) + 1\<rparr>\<rparr>)
      = (True, Some e, st2) \<and>
    eval_is_correct E (m_eval st2) e = Inr False \<and>
    0 < get_num_args e \<and>
    rand_below (rand_ops E) (m_rand st2) (get_num_args e) = (s, r') \<and>
    first_repair (eval_ops E) e (down_order s (get_num_args e)) (m_eval st2) = (Some j, ev') \<longrightarrow>
      (\<exists>st'. search_body E st = Inr (None, st') \<and> m_eval st' = ev' \<and>
         get_id (get_arg e j) \<in> set (m_repair_down st') \<and>
         (\<forall>p \<in> set (parents (m_terms E) (get_arg e j)). get_id p \<in> set (m_repair_up st')))"
    by (intro impI, elim conjE) (rule search_body_down_first)
next
  show "next_to_repair E (st\<lparr>m_stats := (m_stats st)\<lparr>m_moves := m_moves (m_stats st) + 1\<rparr>\<rparr>)
      = (False, Some e, st2) \<and>
    eval_is_correct E (m_eval st2) e = Inr False \<and>
    \<not> is_assertion (m_terms E) e \<longrightarrow>
      (\<exists>st'. search_body E st = Inr (None, st') \<and>
         m_eval st' = repair_up (eval_ops E) (m_eval st2) e \<and>
         (\<forall>p \<in> set (parents (m_terms E) e). get_id p \<in> set (m_repair_up st')))"
    by (intro impI, elim conjE) (rule search_body_up_repair)
qed

theorem changed_node_parents_in_up_witness:
  "0 < get_num_args ex_not \<and>
   rand_below (rand_ops ex_env) (m_rand ex_sls) (get_num_args ex_not) = (0, 3) \<and>
   first_repair (eval_ops ex_env) ex_not (down_order 0 (get_num_args ex_not)) (m_eval ex_sls)
     = (Some 0, {1, 2, 3}) \<and>
   parents (m_terms ex_env) (get_arg ex_not 0) = [ex_not, ex_and] \<and>
   m_eval (try_repair_down ex_env ex_not ex_sls) = {1, 2, 3} \<and>
   get_id (get_arg ex_not 0) \<in> set (m_repair_down (try_repair_down ex_env ex_not ex_sls)) \<and>
   get_id ex_not \<in> set (m_repair_up (try_repair_down ex_env ex_not ex_sls)) \<and>
   get_id ex_and \<in> set (m_repair_up (try_repair_down ex_env ex_not ex_sls)) \<and>
   \<not> is_assertion (m_terms ex_env) ex_x \<and>
   parents (m_terms ex_env) ex_x = [ex_not, ex_and] \<and>
   get_id ex_not \<in> set (m_repair_up (try_repair_up ex_env ex_x (ex_sls\<lparr>m_repair_up := [0]\<rparr>))) \<and>
   get_id ex_and \<in> set (m_repair_up (try_repair_up ex_env ex_x (ex_sls\<lparr>m_repair_up := [0]\<rparr>))) \<and>
   try_repair (eval_ops ex_env) (m_eval ex_sls) ex_not 0 = (True, {1, 2, 3}) \<and>
   fst (try_repair_down_at ex_env ex_not 0 ex_sls) \<and>
   get_id (get_arg ex_not 0) \<in> set (m_repair_down (snd (try_repair_down_at ex_env ex_not 0 ex_sls))) \<and>
   next_to_repair ex_env (ex_sls\<lparr>m_stats := (m_stats ex_sls)\<lparr>m_moves := m_moves (m_stats ex_sls) + 1\<rparr>\<rparr>)
     = (True, Some ex_not, ex_sls\<lparr>m_rand := 3, m_stats := \<lparr>m_moves = 1, m_restarts = 0\<rparr>\<rparr>) \<and>
   eval_is_correct ex_env {0, 1, 2, 3} ex_not = Inr False \<and>
   (\<exists>st'. search_body ex_env ex_sls = Inr (None, st') \<and> m_eval st' = {1, 2, 3} \<and>
      get_id (get_arg ex_not 0) \<in> set (m_repair_down st') \<and>
      get_id ex_not \<in> set (m_repair_up st') \<and> get_id ex_and \<in> set (m_repair_up st')) \<and>
   \<not> is_assertion (m_terms ex_env) ex_and \<and>
   (\<exists>st'. search_body ex_env (ex_sls\<lparr>m_eval := {1, 2, 3}, m_repair_down := [], m_repair_up := [3]\<rparr>)
      = Inr (None, st') \<and> m_eval st' = {1, 2})"
proof -
  have h: "0 < get_num_args ex_not \<and>
    rand_below (rand_ops ex_env) (m_rand ex_sls) (get_num_args ex_not) = (0, 3) \<and>
    first_repair (eval_ops ex_env) ex_not (down_order 0 (get_num_args ex_not)) (m_eval ex_sls)
      = (Some 0, {1, 2, 3})"
    by (simp add: down_order_def rand_below_def get_num_args_def ex_defs)
  have g: "\<not> is_assertion (m_terms ex_env) ex_x"
    by (simp add: ex_defs)
  have p: "parents (m_terms ex_env) (get_arg ex_not 0) = [ex_not, ex_and]"
    and q: "parents (m_terms ex_env) ex_x = [ex_not, ex_and]"
    by (simp_all add: get_arg_def ex_defs)
  note down = changed_node_parents_in_up [of ex_env ex_sls ex_not _ "{1, 2, 3}" 0 3 0,
      THEN conjunct2, THEN conjunct1, rule_format, OF h]
  note up = changed_node_parents_in_up [of ex_env "ex_sls\<lparr>m_repair_up := [0]\<rparr>" ex_x,
      THEN conjunct2, THEN conjunct2, THEN conjunct1, rule_format, OF g]
  from down have d: "m_eval (try_repair_down ex_env ex_not ex_sls) = {1, 2, 3} \<and>
      get_id (get_arg ex_not 0) \<in> set (m_repair_down (try_repair_down ex_env ex_not ex_sls)) \<and>
      get_id ex_not \<in> set (m_repair_up (try_repair_down ex_env ex_not ex_sls)) \<and>
      get_id ex_and \<in> set (m_repair_up (try_repair_down ex_env ex_not ex_sls))"
    unfolding p by simp
  from up have u:
    "get_id ex_not \<in> set (m_repair_up (try_repair_up ex_env ex_x (ex_sls\<lparr>m_repair_up := [0]\<rparr>))) \<and>
     get_id ex_and \<in> set (m_repair_up (try_repair_up ex_env ex_x (ex_sls\<lparr>m_repair_up := [0]\<rparr>)))"
    unfolding q by simp
  have a: "try_repair (eval_ops ex_env) (m_eval ex_sls) ex_not 0 = (True, {1, 2, 3})"
    by (simp add: ex_defs)
  from changed_node_parents_in_up [where E = ex_env and st = ex_sls and e = ex_not and i = 0
      and ev' = "{1, 2, 3}", THEN conjunct1, rule_format, OF a]
  have at: "fst (try_repair_down_at ex_env ex_not 0 ex_sls) \<and>
    get_id (get_arg ex_not 0) \<in> set (m_repair_down (snd (try_repair_down_at ex_env ex_not 0 ex_sls)))"
    by simp
  let ?pick = "ex_sls\<lparr>m_rand := 3, m_stats := \<lparr>m_moves = 1, m_restarts = 0\<rparr>\<rparr>"
  have nx: "next_to_repair ex_env
      (ex_sls\<lparr>m_stats := (m_stats ex_sls)\<lparr>m_moves := m_moves (m_stats ex_sls) + 1\<rparr>\<rparr>)
      = (True, Some ex_not, ?pick)"
    by (simp add: next_to_repair_def uset_empty_def uset_size_def elem_at_def rand_below_def
        ex_defs)
  have ec: "eval_is_correct ex_env {0, 1, 2, 3} ex_not = Inr False"
    by (simp add: eval_is_correct_def is_bool_def ex_defs)
  have ev2: "m_eval ?pick = {0, 1, 2, 3}" and r2: "m_rand ?pick = 3"
    by (simp_all add: ex_sls_def)
  have hr: "next_to_repair ex_env
      (ex_sls\<lparr>m_stats := (m_stats ex_sls)\<lparr>m_moves := m_moves (m_stats ex_sls) + 1\<rparr>\<rparr>)
      = (True, Some ex_not, ?pick) \<and>
    eval_is_correct ex_env (m_eval ?pick) ex_not = Inr False \<and>
    0 < get_num_args ex_not \<and>
    rand_below (rand_ops ex_env) (m_rand ?pick) (get_num_args ex_not) = (0, 2) \<and>
    first_repair (eval_ops ex_env) ex_not (down_order 0 (get_num_args ex_not)) (m_eval ?pick)
      = (Some 0, {1, 2, 3})"
    unfolding ev2 r2 using nx ec
    by (simp add: down_order_def rand_below_def get_num_args_def ex_defs)
  from changed_node_parents_in_up [where E = ex_env and st = ex_sls and e = ex_not
      and ev' = "{1, 2, 3}" and s = 0 and r' = 2 and j = 0 and ?st2.0 = ?pick,
      THEN conjunct2, THEN conjunct2, THEN conjunct2, THEN conjunct1, rule_format, OF hr]
  have rd: "\<exists>st'. search_body ex_env ex_sls = Inr (None, st') \<and> m_eval st' = {1, 2, 3} \<and>
      get_id (get_arg ex_not 0) \<in> set (m_repair_down st') \<and>
      get_id ex_not \<in> set (m_repair_up st') \<and> get_id ex_and \<in> set (m_repair_up st')"
    unfolding p by simp
  let ?upst = "ex_sls\<lparr>m_eval := {1, 2, 3}, m_repair_down := [], m_repair_up := [3]\<rparr>"
  let ?uppick = "ex_sls\<lparr>m_eval := {1, 2, 3}, m_rand := 3, m_repair_down := [],
      m_repair_up := [3], m_stats := \<lparr>m_moves = 1, m_restarts = 0\<rparr>\<rparr>"
  have na: "\<not> is_assertion (m_terms ex_env) ex_and"
    by (simp add: ex_defs)
  have hu: "next_to_repair ex_env
      (?upst\<lparr>m_stats := (m_stats ?upst)\<lparr>m_moves := m_moves (m_stats ?upst) + 1\<rparr>\<rparr>)
      = (False, Some ex_and, ?uppick) \<and>
    eval_is_correct ex_env (m_eval ?uppick) ex_and = Inr False \<and>
    \<not> is_assertion (m_terms ex_env) ex_and"
    by (simp add: next_to_repair_def uset_empty_def uset_size_def elem_at_def rand_below_def
        eval_is_correct_def is_bool_def ex_defs)
  from changed_node_parents_in_up [where E = ex_env and st = ?upst and e = ex_and
      and ?st2.0 = ?uppick,
      THEN conjunct2, THEN conjunct2, THEN conjunct2, THEN conjunct2, rule_format, OF hu]
  have ru: "\<exists>st'. search_body ex_env ?upst = Inr (None, st') \<and> m_eval st' = {1, 2}"
    by (simp add: ex_defs)
  from h p d g q u a at nx ec rd na ru show ?thesis
    by (elim conjE) (intro conjI; assumption)
qed

text \<open>
  Claim C5, as amended. For a node \<open>e\<close> with \<open>n\<close> children, \<open>1 \<le> n \<le> 2^31\<close>:
  the start index \<open>s\<close> drawn from the generator is below \<open>n\<close>; the children are tried
  in the order \<open>(s + i) mod n\<close>, \<open>i = 0, ..., n - 1\<close>, up to the first success. After
  a success \<open>e\<close> is not removed from \<open>down\<close>: the repaired child is inserted into
  \<open>down\<close> and its parents into \<open>up\<close>, so \<open>e\<close> itself enters \<open>up\<close> when the index
  lists it among the parents of its children. When no child is repairable, \<open>e\<close> is
  inserted into \<open>up\<close> and removed from \<open>down\<close>.
\<close>

theorem try_repair_down_cyclic:
  assumes n: "get_num_args e = n" "1 \<le> n" "n \<le> 2147483648"
    and rb: "rand_below (rand_ops E) (m_rand st) n = (s, r')"
    and ord: "try_in_order E e (cyclic_order s n) (st\<lparr>m_rand := r'\<rparr>) = (ok, st1)"
  shows "s < n \<and>
     try_repair_down E e st =
       (if ok then st1
        else st1\<lparr>m_repair_down := uset_remove (get_id e) (m_repair_down st1),
                 m_repair_up := uset_insert (get_id e) (m_repair_up st1)\<rparr>) \<and>
     (ok \<longrightarrow>
        (\<exists>j < n. set (m_repair_down (try_repair_down E e st)) =
                    insert (get_id (get_arg e j)) (set (m_repair_down st)) \<and>
                 set (m_repair_up (try_repair_down E e st)) =
                    get_id ` set (parents (m_terms E) (get_arg e j)) \<union> set (m_repair_up st))) \<and>
     (ok \<and> (\<forall>c \<in> set (get_args e). e \<in> set (parents (m_terms E) c)) \<longrightarrow>
        get_id e \<in> set (m_repair_up (try_repair_down E e st))) \<and>
     (\<not> ok \<longrightarrow>
        m_eval (try_repair_down E e st) = m_eval st1 \<and>
        get_id e \<in> set (m_repair_up (try_repair_down E e st)) \<and>
        (distinct (m_repair_down st) \<longrightarrow>
           get_id e \<notin> set (m_repair_down (try_repair_down E e st))))"
proof -
  from n rb have s: "s < n"
    using rand_below_less [of n "rand_ops E" "m_rand st"] by simp
  with n have loop: "try_repair_down_loop E e s n 0 (st\<lparr>m_rand := r'\<rparr>) = (ok, st1)"
    using ord by (simp add: try_repair_down_loop_in_order cyclic_order_def)
  with n rb have res: "try_repair_down E e st =
       (if ok then st1
        else st1\<lparr>m_repair_down := uset_remove (get_id e) (m_repair_down st1),
                 m_repair_up := uset_insert (get_id e) (m_repair_up st1)\<rparr>)"
    by (cases ok) (simp_all add: try_repair_down_def)
  have succ: "\<exists>j < n. set (m_repair_down st1) = insert (get_id (get_arg e j)) (set (m_repair_down st)) \<and>
                 set (m_repair_up st1) =
                    get_id ` set (parents (m_terms E) (get_arg e j)) \<union> set (m_repair_up st)"
    if ok
    using try_repair_down_loop_success [of E e s n 0 "st\<lparr>m_rand := r'\<rparr>" st1] loop that
    by auto
  have in_up: "get_id e \<in> set (m_repair_up st1)"
    if ok and "\<forall>c \<in> set (get_args e). e \<in> set (parents (m_terms E) c)"
  proof -
    from succ [OF \<open>ok\<close>] obtain j where j: "j < n"
      and up: "set (m_repair_up st1) =
                 get_id ` set (parents (m_terms E) (get_arg e j)) \<union> set (m_repair_up st)"
      by blast
    from j n have "get_arg e j \<in> set (get_args e)"
      by (auto simp: get_arg_def get_num_args_def)
    with that up show ?thesis by auto
  qed
  have fail: "m_repair_down st1 = m_repair_down st \<and> m_repair_up st1 = m_repair_up st"
    if "\<not> ok"
    using try_in_order_failure [of E e "cyclic_order s n" "st\<lparr>m_rand := r'\<rparr>" st1] ord that
    by simp
  from s res succ in_up fail show ?thesis
    by (auto simp: set_uset_insert set_uset_remove)
qed


theorem try_repair_down_cyclic_witness:
  "get_num_args ex_and = 2 \<and>
   rand_below (rand_ops ex_env) 1 2 = (1, 8) \<and>
   cyclic_order 1 2 = [1, 0] \<and>
   try_in_order ex_env ex_and [1, 0] (ex_sls\<lparr>m_rand := 8, m_repair_down := [3, 1]\<rparr>) =
     (False, ex_sls\<lparr>m_rand := 8, m_repair_down := [3, 1]\<rparr>) \<and>
   distinct [3 :: nat, 1] \<and>
   try_repair_down ex_env ex_and (ex_sls\<lparr>m_rand := 1, m_repair_down := [3, 1]\<rparr>) =
     ex_sls\<lparr>m_rand := 8, m_repair_down := [1], m_repair_up := [3]\<rparr>"
proof -
  let ?st = "ex_sls\<lparr>m_rand := 1, m_repair_down := [3, 1]\<rparr>"
  let ?st1 = "ex_sls\<lparr>m_rand := 8, m_repair_down := [3, 1]\<rparr>"
  have n: "get_num_args ex_and = 2" "(1 :: nat) \<le> 2" "(2 :: nat) \<le> 2147483648"
    by (simp_all add: get_num_args_def ex_and_def)
  have rb: "rand_below (rand_ops ex_env) (m_rand ?st) 2 = (1, 8)"
    by (simp add: rand_below_def ex_defs)
  have c: "cyclic_order 1 2 = [1, 0]"
    by (simp add: cyclic_order_def numeral_2_eq_2)
  have ord: "try_in_order ex_env ex_and (cyclic_order 1 2) (?st\<lparr>m_rand := 8\<rparr>) = (False, ?st1)"
    unfolding c by (simp add: ex_move_defs ex_defs)
  from try_repair_down_cyclic [OF n rb ord]
  have "try_repair_down ex_env ex_and ?st =
          ?st1\<lparr>m_repair_down := uset_remove (get_id ex_and) (m_repair_down ?st1),
                m_repair_up := uset_insert (get_id ex_and) (m_repair_up ?st1)\<rparr>"
    by simp
  then have "try_repair_down ex_env ex_and ?st =
               ex_sls\<lparr>m_rand := 8, m_repair_down := [1], m_repair_up := [3]\<rparr>"
    by (simp add: ex_defs uset_remove_def uset_insert_def uset_pos_def)
  with n rb c ord show ?thesis
    by (simp add: ex_sls_def)
qed

text \<open>
  The claim as written says that a successful child repair leaves the set membership of
  \<open>e\<close> unchanged. In the instance, the repair of \<open>\<not> x\<close> succeeds on its child \<open>x\<close>;
  \<open>\<not> x\<close> was not in \<open>up\<close> before the move and is in \<open>up\<close> after it, as a parent of \<open>x\<close>.
\<close>

theorem try_repair_down_membership_counterexample:
  "rand_below (rand_ops ex_env) (m_rand ex_sls) (get_num_args ex_not) = (0, 3) \<and>
   fst (try_repair_down_loop ex_env ex_not 0 (get_num_args ex_not) 0 (ex_sls\<lparr>m_rand := 3\<rparr>)) \<and>
   get_id ex_not \<notin> set (m_repair_up ex_sls) \<and>
   get_id ex_not \<in> set (m_repair_up (try_repair_down ex_env ex_not ex_sls))"
  by (simp add: ex_move_defs ex_defs)


subsection \<open>\<^verbatim>\<open>search\<close>\<close>

lemma try_repair_down_loop_failure:
  "try_repair_down_loop E e s n i st = (False, st') \<Longrightarrow>
     m_repair_down st' = m_repair_down st \<and> m_repair_up st' = m_repair_up st"
proof (induction E e s n i st rule: try_repair_down_loop.induct)
  case (1 E e s n i st)
  note unfold = try_repair_down_loop.simps [of E e s n i st]
  show ?case
  proof (cases "i < n")
    case False
    with "1.prems" show ?thesis by (simp add: unfold)
  next
    case True
    let ?j = "(i + s) mod 4294967296 mod n"
    obtain b st1 where at: "try_repair_down_at E e ?j st = (b, st1)"
      by (cases "try_repair_down_at E e ?j st")
    with True "1.prems" have b: "\<not> b" and rest: "try_repair_down_loop E e s n (i + 1) st1 = (False, st')"
      by (cases b; simp add: unfold)+
    from "1.IH" [of False st1] True at b rest try_repair_down_at_failure [of E e ?j st st1]
    show ?thesis by simp
  qed
qed

lemma try_repair_down_sets:
  "set (m_repair_down (try_repair_down E e st)) \<subseteq>
     set (m_repair_down st) \<union> get_id ` set (get_args e) \<and>
   set (m_repair_up (try_repair_down E e st)) \<subseteq>
     set (m_repair_up st) \<union> {get_id e} \<union>
     (\<Union>c \<in> set (get_args e). get_id ` set (parents (m_terms E) c))"
proof (cases "0 < get_num_args e")
  case False
  then show ?thesis
    using set_uset_remove_subset [of "get_id e" "m_repair_down st"]
    by (auto simp: try_repair_down_def set_uset_insert)
next
  case True
  obtain s r' where rb: "rand_below (rand_ops E) (m_rand st) (get_num_args e) = (s, r')"
    by (cases "rand_below (rand_ops E) (m_rand st) (get_num_args e)")
  obtain b st1 where lp:
    "try_repair_down_loop E e s (get_num_args e) 0 (st\<lparr>m_rand := r'\<rparr>) = (b, st1)"
    by (cases "try_repair_down_loop E e s (get_num_args e) 0 (st\<lparr>m_rand := r'\<rparr>)")
  show ?thesis
  proof (cases b)
    case True
    with lp try_repair_down_loop_success [of E e s "get_num_args e" 0 "st\<lparr>m_rand := r'\<rparr>" st1]
    obtain j where j: "j < get_num_args e"
      and d: "set (m_repair_down st1) = insert (get_id (get_arg e j)) (set (m_repair_down st))"
      and u: "set (m_repair_up st1) =
                get_id ` set (parents (m_terms E) (get_arg e j)) \<union> set (m_repair_up st)"
      by auto
    from j have "get_arg e j \<in> set (get_args e)"
      by (simp add: get_arg_def get_num_args_def)
    moreover from True lp rb \<open>0 < get_num_args e\<close> have "try_repair_down E e st = st1"
      by (simp add: try_repair_down_def)
    ultimately show ?thesis
      using d u by auto
  next
    case False
    with lp try_repair_down_loop_failure [of E e s "get_num_args e" 0 "st\<lparr>m_rand := r'\<rparr>" st1]
    have same: "m_repair_down st1 = m_repair_down st" "m_repair_up st1 = m_repair_up st"
      by simp_all
    from False lp rb \<open>0 < get_num_args e\<close> have "try_repair_down E e st =
        st1\<lparr>m_repair_down := uset_remove (get_id e) (m_repair_down st1),
            m_repair_up := uset_insert (get_id e) (m_repair_up st1)\<rparr>"
      by (simp add: try_repair_down_def)
    with same show ?thesis
      using set_uset_remove_subset [of "get_id e" "m_repair_down st"]
      by (auto simp: set_uset_insert)
  qed
qed

lemma try_repair_up_sets:
  "set (m_repair_down (try_repair_up E e st)) \<subseteq> insert (get_id e) (set (m_repair_down st)) \<and>
   set (m_repair_up (try_repair_up E e st)) \<subseteq>
     set (m_repair_up st) \<union> get_id ` set (parents (m_terms E) e)"
  using set_uset_remove_subset [of "get_id e" "m_repair_up st"]
  by (auto simp: try_repair_up_def Let_def set_uset_insert set_insert_ids)

lemma next_to_repair_some:
  assumes "next_to_repair E st = (d, Some e, st')"
  shows "\<exists>i \<in> set (m_repair_down st) \<union> set (m_repair_up st). term_at (m_terms E) i = Some e"
proof (cases "m_repair_down st = []")
  case False
  then have "fst (rand_below (rand_ops E) (m_rand st) (length (m_repair_down st)))
      < length (m_repair_down st)"
    by (simp add: rand_below_less)
  with assms False show ?thesis
    by (auto simp: next_to_repair_def uset_empty_def uset_size_def elem_at_def
        split: prod.splits intro: nth_mem)
next
  case dn: True
  show ?thesis
  proof (cases "m_repair_up st = []")
    case True
    with dn assms show ?thesis
      by (simp add: next_to_repair_def uset_empty_def)
  next
    case False
    then have "fst (rand_below (rand_ops E) (m_rand st) (length (m_repair_up st)))
        < length (m_repair_up st)"
      by (simp add: rand_below_less)
    with assms dn False show ?thesis
      by (auto simp: next_to_repair_def uset_empty_def uset_size_def elem_at_def
          split: prod.splits intro: nth_mem)
  qed
qed

lemma next_to_repair_none:
  assumes "ids_known (m_terms E) st" and "next_to_repair E st = (d, None, st')"
  shows "m_repair_down st = [] \<and> m_repair_up st = []"
proof (rule ccontr)
  assume ne: "\<not> (m_repair_down st = [] \<and> m_repair_up st = [])"
  define xs where "xs = (if m_repair_down st = [] then m_repair_up st else m_repair_down st)"
  define k where "k = fst (rand_below (rand_ops E) (m_rand st) (length xs))"
  from ne have "xs \<noteq> []" by (auto simp: xs_def)
  then have "k < length xs" by (simp add: k_def rand_below_less)
  then have "xs ! k \<in> set (m_repair_down st) \<union> set (m_repair_up st)"
    by (auto simp: xs_def split: if_splits)
  with assms(1) have "known_id (m_terms E) (xs ! k)"
    by (simp add: ids_known_def)
  moreover from assms(2) ne have "term_at (m_terms E) (xs ! k) = None"
    by (auto simp: next_to_repair_def uset_empty_def uset_size_def elem_at_def xs_def k_def
        split: prod.splits if_splits)
  ultimately show False
    by (simp add: known_id_def)
qed

lemma next_to_repair_empty:
  "m_repair_down st = [] \<Longrightarrow> m_repair_up st = [] \<Longrightarrow> next_to_repair E st = (False, None, st)"
  by (simp add: next_to_repair_def uset_empty_def)


lemma search_body_cases:
  assumes "search_body E st = Inr (r, st')"
  obtains (none) d st2 where
      "next_to_repair E (st\<lparr>m_stats := (m_stats st)\<lparr>m_moves := m_moves (m_stats st) + 1\<rparr>\<rparr>)
         = (d, None, st2)" "r = Some l_true" "st' = st2"
  | (some) d e st2 c where
      "next_to_repair E (st\<lparr>m_stats := (m_stats st)\<lparr>m_moves := m_moves (m_stats st) + 1\<rparr>\<rparr>)
         = (d, Some e, st2)" "eval_is_correct E (m_eval st2) e = Inr c" "r = None"
      "set (m_repair_down st') \<subseteq> set (m_repair_down st) \<union> {get_id e} \<union> get_id ` set (get_args e)"
      "set (m_repair_up st') \<subseteq> set (m_repair_up st) \<union> {get_id e} \<union>
         get_id ` set (parents (m_terms E) e) \<union>
         (\<Union>c \<in> set (get_args e). get_id ` set (parents (m_terms E) c))"
proof -
  let ?st1 = "st\<lparr>m_stats := (m_stats st)\<lparr>m_moves := m_moves (m_stats st) + 1\<rparr>\<rparr>"
  obtain d eo st2 where nx: "next_to_repair E ?st1 = (d, eo, st2)"
    by (cases "next_to_repair E ?st1") auto
  note fr = next_to_repair_frame [OF nx]
  show ?thesis
  proof (cases eo)
    case None
    with assms nx show ?thesis
      by (intro none [of d st2]) (simp_all add: search_body_def)
  next
    case (Some e)
    with assms nx obtain c where c: "eval_is_correct E (m_eval st2) e = Inr c"
      by (cases "eval_is_correct E (m_eval st2) e") (simp_all add: search_body_def)
    define st3 where "st3 = (if 20 \<le> verbosity_level E
                           then st2\<lparr>verbose_stream := verbose_stream st2 @
                                      [move_line E (m_eval st2) d e c]\<rparr>
                           else st2)"
    have st3: "m_repair_down st3 = m_repair_down st" "m_repair_up st3 = m_repair_up st"
      using fr by (simp_all add: st3_def)
    have "search_body E st =
            Inr (None, if c then
                    (if d
                     then st3\<lparr>m_repair_down := uset_remove (get_id e) (m_repair_down st3)\<rparr>
                     else st3\<lparr>m_repair_up := uset_remove (get_id e) (m_repair_up st3)\<rparr>)
                  else if d then try_repair_down E e st3
                  else try_repair_up E e st3)"
      unfolding search_body_def st3_def by (simp add: nx Some c Let_def)
    with assms have r: "r = None"
      and st': "st' = (if c then
                    (if d
                     then st3\<lparr>m_repair_down := uset_remove (get_id e) (m_repair_down st3)\<rparr>
                     else st3\<lparr>m_repair_up := uset_remove (get_id e) (m_repair_up st3)\<rparr>)
                  else if d then try_repair_down E e st3
                  else try_repair_up E e st3)"
      by simp_all
    have "set (m_repair_down st') \<subseteq> set (m_repair_down st) \<union> {get_id e} \<union> get_id ` set (get_args e)"
      using st' st3 try_repair_down_sets [of E e st3] try_repair_up_sets [of E e st3]
        set_uset_remove_subset [of "get_id e" "m_repair_down st"]
      by (auto split: if_splits)
    moreover have "set (m_repair_up st') \<subseteq> set (m_repair_up st) \<union> {get_id e} \<union>
         get_id ` set (parents (m_terms E) e) \<union>
         (\<Union>c \<in> set (get_args e). get_id ` set (parents (m_terms E) c))"
      using st' st3 try_repair_down_sets [of E e st3] try_repair_up_sets [of E e st3]
        set_uset_remove_subset [of "get_id e" "m_repair_up st"]
      by (auto split: if_splits)
    ultimately show ?thesis
      using nx Some c r by (intro some [of d e st2 c]) simp_all
  qed
qed

lemma search_body_known:
  assumes cl: "terms_closed (m_terms E)" and kn: "ids_known (m_terms E) st"
    and b: "search_body E st = Inr (None, st')"
  shows "ids_known (m_terms E) st'"
  using b
proof (cases rule: search_body_cases)
  case (none d st2)
  then show ?thesis by simp
next
  case (some d e st2 c)
  let ?st1 = "st\<lparr>m_stats := (m_stats st)\<lparr>m_moves := m_moves (m_stats st) + 1\<rparr>\<rparr>"
  from next_to_repair_some [OF some(1)] obtain i where
    i: "i \<in> set (m_repair_down st) \<union> set (m_repair_up st)" "term_at (m_terms E) i = Some e"
    by auto
  with cl have e: "get_id e = i"
    and ch: "\<forall>c \<in> set (get_args e). known_id (m_terms E) (get_id c) \<and>
               (\<forall>p \<in> set (parents (m_terms E) c). known_id (m_terms E) (get_id p))"
    and pa: "\<forall>p \<in> set (parents (m_terms E) e). known_id (m_terms E) (get_id p)"
    unfolding terms_closed_def by blast+
  from kn i e have ke: "known_id (m_terms E) (get_id e)"
    by (simp add: ids_known_def)
  show ?thesis
    unfolding ids_known_def
  proof
    fix k
    assume "k \<in> set (m_repair_down st') \<union> set (m_repair_up st')"
    with some(4,5) have "k \<in> set (m_repair_down st) \<union> set (m_repair_up st) \<or> k = get_id e \<or>
        k \<in> get_id ` set (get_args e) \<or> k \<in> get_id ` set (parents (m_terms E) e) \<or>
        k \<in> (\<Union>c \<in> set (get_args e). get_id ` set (parents (m_terms E) c))"
      by blast
    with kn ke ch pa show "known_id (m_terms E) k"
      unfolding ids_known_def by blast
  qed
qed

lemma search_body_true:
  assumes "ids_known (m_terms E) st" and "search_body E st = Inr (Some res, st')"
  shows "res = l_true \<and> m_repair_down st = [] \<and> m_repair_up st = [] \<and>
         m_repair_down st' = [] \<and> m_repair_up st' = []"
  using assms(2)
proof (cases rule: search_body_cases)
  case (none d st2)
  let ?st1 = "st\<lparr>m_stats := (m_stats st)\<lparr>m_moves := m_moves (m_stats st) + 1\<rparr>\<rparr>"
  from assms(1) have "ids_known (m_terms E) ?st1"
    by (simp add: ids_known_def)
  from next_to_repair_none [OF this none(1)] next_to_repair_frame [OF none(1)] none(2,3)
  show ?thesis by simp
next
  case (some d e st2 c)
  then show ?thesis by simp
qed

lemma search_body_result: "search_body E st = Inr (Some res, st') \<Longrightarrow> res = l_true"
  by (erule search_body_cases) simp_all

lemma search_body_empty:
  assumes "m_repair_down st = []" and "m_repair_up st = []"
  shows "search_body E st =
           Inr (Some l_true, st\<lparr>m_stats := (m_stats st)\<lparr>m_moves := m_moves (m_stats st) + 1\<rparr>\<rparr>)"
  using assms by (simp add: search_body_def next_to_repair_empty)


lemma search_reaches_loop:
  "search_reaches E n st n' st' \<Longrightarrow> search_loop E n st = search_loop E n' st'"
proof (induction rule: search_reaches.induct)
  case (here n st)
  show ?case by simp
next
  case (round n st h st1 n' st')
  then show ?case
    by (simp add: search_loop.simps [of E n st])
qed

lemma search_reaches_known:
  assumes "terms_closed (m_terms E)"
  shows "search_reaches E n st n' st' \<Longrightarrow> ids_known (m_terms E) st \<Longrightarrow> ids_known (m_terms E) st'"
proof (induction rule: search_reaches.induct)
  case (here n st)
  then show ?case by simp
next
  case (round n st h st1 n' st')
  from round.prems have "ids_known (m_terms E) (st\<lparr>m_limit := h\<rparr>)"
    by (simp add: ids_known_def)
  from search_body_known [OF assms this round.hyps(3)] round.IH show ?case
    by simp
qed

lemma search_loop_last_round:
  "search_loop E n st = Inr (res, st') \<Longrightarrow>
     (res = l_true \<and>
      (\<exists>n' s h. search_reaches E n st n' s \<and> n' < m_max_repairs (m_config s) \<and>
         inc E (m_limit s) = (True, h) \<and>
         search_body E (s\<lparr>m_limit := h\<rparr>) = Inr (Some l_true, st'))) \<or>
     (res = l_undef \<and>
      (\<exists>n' s. search_reaches E n st n' s \<and>
         (\<not> n' < m_max_repairs (m_config s) \<or> \<not> fst (inc E (m_limit s)))))"
proof (induction E n st rule: search_loop.induct)
  case (1 E n st)
  note unfold = search_loop.simps [of E n st]
  show ?case
  proof (cases "n < m_max_repairs (m_config st)")
    case False
    with "1.prems" have "res = l_undef" by (simp add: unfold)
    with False search_reaches.here [of E n st] show ?thesis by blast
  next
    case True
    obtain ok h where ih: "inc E (m_limit st) = (ok, h)"
      by (cases "inc E (m_limit st)")
    show ?thesis
    proof (cases ok)
      case False
      with True ih "1.prems" have "res = l_undef" by (auto simp: unfold)
      moreover from False ih have "\<not> fst (inc E (m_limit st))" by simp
      ultimately show ?thesis
        using search_reaches.here [of E n st] by blast
    next
      case ok: True
      with True ih "1.prems" obtain r st1 where
        b: "search_body E (st\<lparr>m_limit := h\<rparr>) = Inr (r, st1)"
        by (cases "search_body E (st\<lparr>m_limit := h\<rparr>)") (auto simp: unfold)
      show ?thesis
      proof (cases r)
        case (Some res')
        with True ih ok b "1.prems" have "res = res'" "st' = st1"
          by (auto simp: unfold)
        with Some b search_body_result [of E "st\<lparr>m_limit := h\<rparr>" res' st1]
        have "res = l_true" "search_body E (st\<lparr>m_limit := h\<rparr>) = Inr (Some l_true, st')"
          by simp_all
        with True ih ok search_reaches.here [of E n st] show ?thesis
          by (intro disjI1 conjI exI [of _ n] exI [of _ st] exI [of _ h]) simp_all
      next
        case None
        with True ih ok b "1.prems" have "search_loop E (n + 1) st1 = Inr (res, st')"
          by (simp add: unfold)
        from "1.IH" [OF True _ _ b _ None this] ih ok
        have "(res = l_true \<and>
            (\<exists>n' s h. search_reaches E (n + 1) st1 n' s \<and> n' < m_max_repairs (m_config s) \<and>
               inc E (m_limit s) = (True, h) \<and>
               search_body E (s\<lparr>m_limit := h\<rparr>) = Inr (Some l_true, st'))) \<or>
           (res = l_undef \<and>
            (\<exists>n' s. search_reaches E (n + 1) st1 n' s \<and>
               (\<not> n' < m_max_repairs (m_config s) \<or> \<not> fst (inc E (m_limit s)))))"
          by simp
        moreover have "search_reaches E n st n' s" if "search_reaches E (n + 1) st1 n' s" for n' s
          using search_reaches.round [OF True _ _ that, of h] ih ok b None by simp
        ultimately show ?thesis by blast
      qed
    qed
  qed
qed

lemma search_body_no_abort:
  assumes so: "terms_sorted (m_terms E)"
  shows "\<exists>r st'. search_body E st = Inr (r, st')"
proof -
  let ?st1 = "st\<lparr>m_stats := (m_stats st)\<lparr>m_moves := m_moves (m_stats st) + 1\<rparr>\<rparr>"
  obtain d eo st2 where nx: "next_to_repair E ?st1 = (d, eo, st2)"
    by (cases "next_to_repair E ?st1") auto
  show ?thesis
  proof (cases eo)
    case None
    with nx show ?thesis by (simp add: search_body_def)
  next
    case (Some e)
    with nx next_to_repair_some [of E ?st1 d e st2] obtain i where "term_at (m_terms E) i = Some e"
      by auto
    with so have "is_bool e \<or> is_bv e"
      unfolding terms_sorted_def by blast
    then have "\<exists>c. eval_is_correct E (m_eval st2) e = Inr c"
      by (auto simp: eval_is_correct_def)
    then obtain c where "eval_is_correct E (m_eval st2) e = Inr c" ..
    with nx Some show ?thesis
      by (simp add: search_body_def Let_def)
  qed
qed

lemma search_loop_total:
  "terms_sorted (m_terms E) \<Longrightarrow> \<exists>res st'. search_loop E n st = Inr (res, st')"
proof (induction E n st rule: search_loop.induct)
  case (1 E n st)
  note unfold = search_loop.simps [of E n st]
  show ?case
  proof (cases "n < m_max_repairs (m_config st)")
    case False
    then show ?thesis by (simp add: unfold)
  next
    case True
    obtain ok h where ih: "inc E (m_limit st) = (ok, h)"
      by (cases "inc E (m_limit st)")
    show ?thesis
    proof (cases ok)
      case False
      with True ih show ?thesis by (simp add: unfold)
    next
      case ok: True
      from search_body_no_abort [OF "1.prems"] obtain r st1 where
        b: "search_body E (st\<lparr>m_limit := h\<rparr>) = Inr (r, st1)"
        by blast
      show ?thesis
      proof (cases r)
        case (Some res')
        with True ih ok b show ?thesis by (simp add: unfold)
      next
        case None
        from "1.IH" [OF True ih [symmetric] eqTrueI [OF ok] b refl None "1.prems"]
        obtain res st' where "search_loop E (n + 1) st1 = Inr (res, st')"
          by auto
        with True ih ok b None show ?thesis by (simp add: unfold)
      qed
    qed
  qed
qed

lemma search_returned:
  assumes cl: "terms_closed (m_terms E)" and kn: "ids_known (m_terms E) st"
    and s: "search E st = Inr (res, st')"
  shows "res \<noteq> l_false \<and>
         (res = l_true \<longleftrightarrow>
            (\<exists>n s h. search_reaches E 0 st n s \<and> n < m_max_repairs (m_config s) \<and>
               inc E (m_limit s) = (True, h) \<and>
               m_repair_down s = [] \<and> m_repair_up s = [])) \<and>
         ((\<exists>n s. search_reaches E 0 st n s \<and>
             (\<not> n < m_max_repairs (m_config s) \<or> \<not> fst (inc E (m_limit s)))) \<longrightarrow>
            res = l_undef)"
proof (intro conjI iffI impI)
  from s have lp: "search_loop E 0 st = Inr (res, st')"
    by (simp add: search_def)
  note last = search_loop_last_round [OF lp]
  from last show "res \<noteq> l_false" by auto
  {
    assume "res = l_true"
    with last obtain n s h where r: "search_reaches E 0 st n s"
      and g: "n < m_max_repairs (m_config s)" "inc E (m_limit s) = (True, h)"
      and b: "search_body E (s\<lparr>m_limit := h\<rparr>) = Inr (Some l_true, st')"
      by auto
    from search_reaches_known [OF cl r kn] have "ids_known (m_terms E) (s\<lparr>m_limit := h\<rparr>)"
      by (simp add: ids_known_def)
    from search_body_true [OF this b] r g
    show "\<exists>n s h. search_reaches E 0 st n s \<and> n < m_max_repairs (m_config s) \<and>
               inc E (m_limit s) = (True, h) \<and> m_repair_down s = [] \<and> m_repair_up s = []"
      by auto
  }
  {
    assume "\<exists>n s h. search_reaches E 0 st n s \<and> n < m_max_repairs (m_config s) \<and>
               inc E (m_limit s) = (True, h) \<and> m_repair_down s = [] \<and> m_repair_up s = []"
    then obtain n s h where r: "search_reaches E 0 st n s"
      and g: "n < m_max_repairs (m_config s)" "inc E (m_limit s) = (True, h)"
      and e: "m_repair_down s = []" "m_repair_up s = []"
      by auto
    from e have "search_body E (s\<lparr>m_limit := h\<rparr>) =
        Inr (Some l_true, s\<lparr>m_limit := h\<rparr>\<lparr>m_stats := (m_stats (s\<lparr>m_limit := h\<rparr>))
           \<lparr>m_moves := m_moves (m_stats (s\<lparr>m_limit := h\<rparr>)) + 1\<rparr>\<rparr>)"
      by (intro search_body_empty) simp_all
    with g have "\<exists>s'. search_loop E n s = Inr (l_true, s')"
      by (simp add: search_loop.simps [of E n s])
    with search_reaches_loop [OF r] lp show "res = l_true"
      by auto
  }
  {
    assume "\<exists>n s. search_reaches E 0 st n s \<and>
             (\<not> n < m_max_repairs (m_config s) \<or> \<not> fst (inc E (m_limit s)))"
    then obtain n s where r: "search_reaches E 0 st n s"
      and g: "\<not> n < m_max_repairs (m_config s) \<or> \<not> fst (inc E (m_limit s))"
      by auto
    from g have "\<exists>s'. search_loop E n s = Inr (l_undef, s')"
      by (auto simp: search_loop.simps [of E n s] split: prod.splits bool.splits)
    with search_reaches_loop [OF r] lp show "res = l_undef"
      by auto
  }
qed


text \<open>
  Claim C1. Every execution of \<^verbatim>\<open>search\<close> returns when the index is sorted (otherwise
  \<^verbatim>\<open>eval_is_correct\<close> may reach \<^verbatim>\<open>UNREACHABLE\<close>). For an execution that returns
  (the index closed, the ids of the start state known): the result is never
  \<^verbatim>\<open>l_false\<close>; it is \<^verbatim>\<open>l_true\<close> exactly when the loop reaches a round, with budget
  left and \<^verbatim>\<open>m.inc()\<close> true, in which \<^verbatim>\<open>next_to_repair\<close> finds both sets empty; and
  it is \<^verbatim>\<open>l_undef\<close> when the loop comes to its guard with the budget exhausted or with
  \<^verbatim>\<open>m.inc()\<close> false.
\<close>

theorem search_result:
  assumes cl: "terms_closed (m_terms E)" and kn: "ids_known (m_terms E) st"
  shows "(terms_sorted (m_terms E) \<longrightarrow> (\<exists>res st'. search E st = Inr (res, st'))) \<and>
         (\<forall>res st'. search E st = Inr (res, st') \<longrightarrow>
            res \<noteq> l_false \<and>
            (res = l_true \<longleftrightarrow>
               (\<exists>n s h. search_reaches E 0 st n s \<and> n < m_max_repairs (m_config s) \<and>
                  inc E (m_limit s) = (True, h) \<and>
                  m_repair_down s = [] \<and> m_repair_up s = [])) \<and>
            ((\<exists>n s. search_reaches E 0 st n s \<and>
                (\<not> n < m_max_repairs (m_config s) \<or> \<not> fst (inc E (m_limit s)))) \<longrightarrow>
               res = l_undef))"
proof
  show "terms_sorted (m_terms E) \<longrightarrow> (\<exists>res st'. search E st = Inr (res, st'))"
    unfolding search_def by (intro impI) (rule search_loop_total)
next
  show "\<forall>res st'. search E st = Inr (res, st') \<longrightarrow>
            res \<noteq> l_false \<and>
            (res = l_true \<longleftrightarrow>
               (\<exists>n s h. search_reaches E 0 st n s \<and> n < m_max_repairs (m_config s) \<and>
                  inc E (m_limit s) = (True, h) \<and>
                  m_repair_down s = [] \<and> m_repair_up s = [])) \<and>
            ((\<exists>n s. search_reaches E 0 st n s \<and>
                (\<not> n < m_max_repairs (m_config s) \<or> \<not> fst (inc E (m_limit s)))) \<longrightarrow>
               res = l_undef)"
    by (intro allI impI) (rule search_returned [OF cl kn])
qed

lemma ex_terms_closed: "terms_closed (m_terms ex_env)"
  by (simp add: terms_closed_def known_id_def ex_defs)

theorem search_result_witness:
  "terms_closed (m_terms ex_env) \<and> ids_known (m_terms ex_env) ex_sls \<and>
   terms_sorted (m_terms ex_env) \<and>
   search ex_env ex_sls =
     Inr (l_true, ex_sls\<lparr>m_eval := {1, 2}, m_rand := 6,
            m_repair_down := [], m_repair_up := [],
            m_stats := \<lparr>m_moves = 6, m_restarts = 0\<rparr>, m_limit := 94,
            verbose_stream :=
              [Move_line True 1 None (Some True) False,
               Move_line True 1 None (Some True) True,
               Move_line True 0 None (Some False) True,
               Move_line False 1 None (Some True) True,
               Move_line False 3 None (Some True) False]\<rparr>) \<and>
   (\<exists>n s h. search_reaches ex_env 0 ex_sls n s \<and> n < m_max_repairs (m_config s) \<and>
      inc ex_env (m_limit s) = (True, h) \<and> m_repair_down s = [] \<and> m_repair_up s = [])"
proof -
  let ?fin = "ex_sls\<lparr>m_eval := {1, 2}, m_rand := 6,
            m_repair_down := [], m_repair_up := [],
            m_stats := \<lparr>m_moves = 6, m_restarts = 0\<rparr>, m_limit := 94,
            verbose_stream :=
              [Move_line True 1 None (Some True) False,
               Move_line True 1 None (Some True) True,
               Move_line True 0 None (Some False) True,
               Move_line False 1 None (Some True) True,
               Move_line False 3 None (Some True) False]\<rparr>"
  have kn: "ids_known (m_terms ex_env) ex_sls"
    by (simp add: ids_known_def known_id_def ex_defs)
  have so: "terms_sorted (m_terms ex_env)"
    by (simp add: terms_sorted_def is_bool_def is_bv_def ex_defs)
  have s: "search ex_env ex_sls = Inr (l_true, ?fin)"
    by (simp add: ex_search_defs ex_move_defs ex_defs)
  from search_result [OF ex_terms_closed kn] ex_terms_closed kn so s show ?thesis
    by simp
qed


subsection \<open>\<^verbatim>\<open>init_repair\<close>\<close>

lemma init_repair_assertions_eval:
  "m_eval (fold (init_repair_assertion E) as st) = set_false_assertions (eval_ops E) as (m_eval st)"
  unfolding set_false_assertions_def
  by (induction as arbitrary: st) (simp_all add: init_repair_assertion_def)

lemma set_false_assertions_mono:
  assumes "set_overwrites V"
  shows "bval0 V ev e \<Longrightarrow> bval0 V (set_false_assertions V as ev) e"
  unfolding set_false_assertions_def
proof (induction as arbitrary: ev)
  case Nil
  then show ?case by simp
next
  case (Cons a as)
  from assms Cons.prems have "bval0 V (if \<not> bval0 V ev a then eval_set V ev a True else ev) e"
    by (simp add: set_overwrites_def)
  from Cons.IH [OF this] show ?case by simp
qed

lemma set_false_assertions_true:
  assumes "set_overwrites V"
  shows "a \<in> set as \<Longrightarrow> bval0 V (set_false_assertions V as ev) a"
proof (induction as arbitrary: ev)
  case Nil
  then show ?case by simp
next
  case (Cons b bs)
  let ?ev = "if \<not> bval0 V ev b then eval_set V ev b True else ev"
  have step: "set_false_assertions V (b # bs) ev = set_false_assertions V bs ?ev"
    by (simp add: set_false_assertions_def)
  show ?case
  proof (cases "a = b")
    case True
    from assms have "bval0 V ?ev b"
      by (simp add: set_overwrites_def)
    from set_false_assertions_mono [OF assms this] True step show ?thesis
      by simp
  next
    case False
    with Cons.prems have "a \<in> set bs" by simp
    from Cons.IH [OF this] step show ?thesis by simp
  qed
qed

lemma init_repair_assertions_down:
  assumes "set_overwrites (eval_ops E)"
  shows "set (m_repair_down (fold (init_repair_assertion E) as st)) =
           set (m_repair_down st) \<union>
           get_id ` {a \<in> set as. \<not> bval0 (eval_ops E) (m_eval st) a}"
proof (induction as arbitrary: st)
  case Nil
  show ?case by simp
next
  case (Cons a as)
  show ?case
  proof (cases "bval0 (eval_ops E) (m_eval st) a")
    case True
    then have "init_repair_assertion E a st = st"
      by (simp add: init_repair_assertion_def)
    with Cons.IH [of st] True show ?thesis
      by auto
  next
    case False
    let ?st = "st\<lparr>m_eval := eval_set (eval_ops E) (m_eval st) a True,
                  m_repair_down := uset_insert (get_id a) (m_repair_down st)\<rparr>"
    from False have st: "init_repair_assertion E a st = ?st"
      by (simp add: init_repair_assertion_def)
    have "get_id ` {b \<in> set as. \<not> bval0 (eval_ops E) (m_eval ?st) b} \<union> {get_id a} =
          get_id ` {b \<in> set as. \<not> bval0 (eval_ops E) (m_eval st) b} \<union> {get_id a}"
      using assms by (auto simp: set_overwrites_def)
    with Cons.IH [of ?st] st False show ?thesis
      by (auto simp: set_uset_insert)
  qed
qed

lemma init_repair_terms_down:
  "init_repair_terms E ts st = Inr st' \<Longrightarrow>
     set (m_repair_down st') =
       set (m_repair_down st) \<union>
       get_id ` {t. Some t \<in> set ts \<and> eval_is_correct E (m_eval st) t = Inr False}"
proof (induction E ts st rule: init_repair_terms.induct)
  case (1 E st)
  then show ?case by simp
next
  case (2 E ts st)
  then show ?case by simp
next
  case (3 E t ts st)
  from "3.prems" obtain c where c: "eval_is_correct E (m_eval st) t = Inr c"
    by (cases "eval_is_correct E (m_eval st) t") simp_all
  show ?case
  proof (cases c)
    case True
    with c "3.prems" "3.IH" [OF c] show ?thesis by auto
  next
    case False
    with c "3.prems" "3.IH" [OF c] show ?thesis
      by (auto simp: set_uset_insert)
  qed
qed

lemma init_repair_terms_total:
  "(\<forall>t. Some t \<in> set ts \<longrightarrow> is_bool t \<or> is_bv t) \<Longrightarrow> \<exists>st'. init_repair_terms E ts st = Inr st'"
proof (induction E ts st rule: init_repair_terms.induct)
  case (1 E st)
  show ?case by simp
next
  case (2 E ts st)
  then show ?case by simp
next
  case (3 E t ts st)
  then have "is_bool t \<or> is_bv t" by simp
  then have "\<exists>c. eval_is_correct E (m_eval st) t = Inr c"
    by (auto simp: eval_is_correct_def)
  then obtain c where c: "eval_is_correct E (m_eval st) t = Inr c" ..
  from "3.IH" [OF c] "3.prems" c show ?case by simp
qed

lemma init_repair_returned:
  assumes ow: "set_overwrites (eval_ops E)" and ir: "init_repair E st = Inr st'"
  shows "m_repair_up st' = [] \<and>
         m_eval st' = set_false_assertions (eval_ops E) (assertions (m_terms E)) (m_eval st) \<and>
         (\<forall>a \<in> set (assertions (m_terms E)). bval0 (eval_ops E) (m_eval st') a) \<and>
         set (m_repair_down st') =
           get_id ` {a \<in> set (assertions (m_terms E)). \<not> bval0 (eval_ops E) (m_eval st) a} \<union>
           get_id ` {t. Some t \<in> set (terms (m_terms E)) \<and>
                        eval_is_correct E (m_eval st') t = Inr False}"
proof -
  let ?st0 = "st\<lparr>m_repair_down := uset_reset, m_repair_up := uset_reset\<rparr>"
  let ?st1 = "fold (init_repair_assertion E) (assertions (m_terms E)) ?st0"
  from ir have t: "init_repair_terms E (terms (m_terms E)) ?st1 = Inr st'"
    by (simp add: init_repair_def)
  note fr = init_repair_terms_frame [OF t]
  have ev1: "m_eval ?st1 = set_false_assertions (eval_ops E) (assertions (m_terms E)) (m_eval st)"
    by (simp add: init_repair_assertions_eval)
  have up: "m_repair_up st' = []"
    using fr by (simp add: init_repair_assertions_frame uset_reset_def)
  have ev: "m_eval st' = set_false_assertions (eval_ops E) (assertions (m_terms E)) (m_eval st)"
    using fr ev1 by simp
  have tr: "\<forall>a \<in> set (assertions (m_terms E)). bval0 (eval_ops E) (m_eval st') a"
    using ev set_false_assertions_true [OF ow] by simp
  have "set (m_repair_down ?st1) =
          get_id ` {a \<in> set (assertions (m_terms E)). \<not> bval0 (eval_ops E) (m_eval st) a}"
    using init_repair_assertions_down [OF ow, of "assertions (m_terms E)" ?st0]
    by (simp add: uset_reset_def)
  with init_repair_terms_down [OF t] fr
  have "set (m_repair_down st') =
           get_id ` {a \<in> set (assertions (m_terms E)). \<not> bval0 (eval_ops E) (m_eval st) a} \<union>
           get_id ` {t. Some t \<in> set (terms (m_terms E)) \<and>
                        eval_is_correct E (m_eval st') t = Inr False}"
    by simp
  with up ev tr show ?thesis by simp
qed


text \<open>
  Claim C2, as amended. \<^verbatim>\<open>init_repair\<close> returns when every term is Boolean or a
  bit-vector. When it returns, at initialization or at the end of \<^verbatim>\<open>reinit_eval\<close>
  (there, for the assignment that \<^verbatim>\<open>init_eval\<close> has reseeded), \<open>up\<close> is empty,
  every assertion found false has been set to true, and \<open>down\<close> holds exactly the ids of the assertions that were false and of
  the terms for which \<^verbatim>\<open>eval_is_correct\<close> is false after that: the terms whose
  current value differs from the recomputed one, and the terms that \<^verbatim>\<open>can_eval1\<close>
  rejects.
\<close>

theorem init_repair_sets:
  assumes ow: "set_overwrites (eval_ops E)"
  shows "((\<forall>t. Some t \<in> set (terms (m_terms E)) \<longrightarrow> is_bool t \<or> is_bv t) \<longrightarrow>
            (\<exists>st'. init_repair E st = Inr st')) \<and>
         (\<forall>st'. init_repair E st = Inr st' \<longrightarrow>
            m_repair_up st' = [] \<and>
            m_eval st' = set_false_assertions (eval_ops E) (assertions (m_terms E)) (m_eval st) \<and>
            (\<forall>a \<in> set (assertions (m_terms E)). bval0 (eval_ops E) (m_eval st') a) \<and>
            set (m_repair_down st') =
              get_id ` {a \<in> set (assertions (m_terms E)). \<not> bval0 (eval_ops E) (m_eval st) a} \<union>
              get_id ` {t. Some t \<in> set (terms (m_terms E)) \<and>
                           eval_is_correct E (m_eval st') t = Inr False}) \<and>
         (\<forall>st' ev r'.
            reinit_eval E st = Inr st' \<and>
            init_eval (eval_ops E) (reinit_oracle E) (assertions (m_terms E)) (m_eval st) (m_rand st)
              = (ev, r') \<longrightarrow>
            m_repair_up st' = [] \<and>
            m_eval st' = set_false_assertions (eval_ops E) (assertions (m_terms E)) ev \<and>
            (\<forall>a \<in> set (assertions (m_terms E)). bval0 (eval_ops E) (m_eval st') a) \<and>
            set (m_repair_down st') =
              get_id ` {a \<in> set (assertions (m_terms E)). \<not> bval0 (eval_ops E) ev a} \<union>
              get_id ` {t. Some t \<in> set (terms (m_terms E)) \<and>
                           eval_is_correct E (m_eval st') t = Inr False})"
proof (intro conjI)
  show "(\<forall>t. Some t \<in> set (terms (m_terms E)) \<longrightarrow> is_bool t \<or> is_bv t) \<longrightarrow>
            (\<exists>st'. init_repair E st = Inr st')"
    unfolding init_repair_def by (intro impI) (rule init_repair_terms_total)
next
  show "\<forall>st'. init_repair E st = Inr st' \<longrightarrow>
            m_repair_up st' = [] \<and>
            m_eval st' = set_false_assertions (eval_ops E) (assertions (m_terms E)) (m_eval st) \<and>
            (\<forall>a \<in> set (assertions (m_terms E)). bval0 (eval_ops E) (m_eval st') a) \<and>
            set (m_repair_down st') =
              get_id ` {a \<in> set (assertions (m_terms E)). \<not> bval0 (eval_ops E) (m_eval st) a} \<union>
              get_id ` {t. Some t \<in> set (terms (m_terms E)) \<and>
                           eval_is_correct E (m_eval st') t = Inr False}"
    by (intro allI impI) (rule init_repair_returned [OF ow])
next
  show "\<forall>st' ev r'.
            reinit_eval E st = Inr st' \<and>
            init_eval (eval_ops E) (reinit_oracle E) (assertions (m_terms E)) (m_eval st) (m_rand st)
              = (ev, r') \<longrightarrow>
            m_repair_up st' = [] \<and>
            m_eval st' = set_false_assertions (eval_ops E) (assertions (m_terms E)) ev \<and>
            (\<forall>a \<in> set (assertions (m_terms E)). bval0 (eval_ops E) (m_eval st') a) \<and>
            set (m_repair_down st') =
              get_id ` {a \<in> set (assertions (m_terms E)). \<not> bval0 (eval_ops E) ev a} \<union>
              get_id ` {t. Some t \<in> set (terms (m_terms E)) \<and>
                           eval_is_correct E (m_eval st') t = Inr False}"
  proof (intro allI impI, elim conjE)
    fix st' ev r'
    assume "reinit_eval E st = Inr st'"
      and "init_eval (eval_ops E) (reinit_oracle E) (assertions (m_terms E)) (m_eval st) (m_rand st)
              = (ev, r')"
    then have ir: "init_repair E (st\<lparr>m_eval := ev, m_rand := r'\<rparr>) = Inr st'"
      by (simp add: reinit_eval_def)
    have ev: "m_eval (st\<lparr>m_eval := ev, m_rand := r'\<rparr>) = ev"
      by simp
    show "m_repair_up st' = [] \<and>
            m_eval st' = set_false_assertions (eval_ops E) (assertions (m_terms E)) ev \<and>
            (\<forall>a \<in> set (assertions (m_terms E)). bval0 (eval_ops E) (m_eval st') a) \<and>
            set (m_repair_down st') =
              get_id ` {a \<in> set (assertions (m_terms E)). \<not> bval0 (eval_ops E) ev a} \<union>
              get_id ` {t. Some t \<in> set (terms (m_terms E)) \<and>
                           eval_is_correct E (m_eval st') t = Inr False}"
      by (rule init_repair_returned [OF ow ir, unfolded ev])
  qed
qed

lemma ex_set_overwrites: "set_overwrites (eval_ops ex_env)"
  by (simp add: set_overwrites_def ex_env_def ex_eval_def ex_set_def)

theorem init_repair_sets_witness:
  "set_overwrites (eval_ops ex_env) \<and>
   init_repair ex_env (ex_sls\<lparr>m_eval := {0, 2, 3}, m_repair_up := [3]\<rparr>) =
     Inr (ex_sls\<lparr>m_eval := {0, 1, 2, 3}, m_repair_down := [1], m_repair_up := []\<rparr>) \<and>
   get_id ` {a \<in> set (assertions (m_terms ex_env)). \<not> bval0 (eval_ops ex_env) {0, 2, 3} a} = {1}"
proof -
  let ?st = "ex_sls\<lparr>m_eval := {0, 2, 3}, m_repair_up := [3]\<rparr>"
  let ?st' = "ex_sls\<lparr>m_eval := {0, 1, 2, 3}, m_repair_down := [1], m_repair_up := []\<rparr>"
  have ir: "init_repair ex_env ?st = Inr ?st'"
    by (simp add: ex_init_defs ex_defs insert_commute)
  have a: "get_id ` {a \<in> set (assertions (m_terms ex_env)). \<not> bval0 (eval_ops ex_env) {0, 2, 3} a} = {1}"
    by (auto simp: ex_defs)
  from init_repair_sets [OF ex_set_overwrites, of ?st] ir
  have "m_repair_up ?st' = [] \<and>
        set (m_repair_down ?st') =
              get_id ` {a \<in> set (assertions (m_terms ex_env)).
                          \<not> bval0 (eval_ops ex_env) (m_eval ?st) a} \<union>
              get_id ` {t. Some t \<in> set (terms (m_terms ex_env)) \<and>
                           eval_is_correct ex_env (m_eval ?st') t = Inr False}"
    by blast
  with ex_set_overwrites ir a show ?thesis
    by simp
qed

text \<open>
  The claim as written admits into \<open>down\<close>, besides the false assertions, only terms
  with \<^verbatim>\<open>can_eval1\<close> true. In the instance the node of another sort is rejected by
  \<^verbatim>\<open>can_eval1\<close>, is no assertion, and is in \<open>down\<close> after \<^verbatim>\<open>init_repair\<close>.
\<close>

theorem init_repair_cannot_eval_counterexample:
  "init_repair ex_env_u ex_sls = Inr (ex_sls\<lparr>m_repair_down := [1, 5]\<rparr>) \<and>
   \<not> can_eval1 (eval_ops ex_env_u) (m_eval ex_sls) ex_u \<and>
   get_id ex_u \<in> set [1, 5] \<and>
   get_id ex_u \<notin> get_id ` {a \<in> set (assertions (m_terms ex_env_u)).
                              \<not> bval0 (eval_ops ex_env_u) (m_eval ex_sls) a} \<and>
   get_id ex_u \<notin> get_id ` {t. Some t \<in> set (terms (m_terms ex_env_u)) \<and>
                              can_eval1 (eval_ops ex_env_u) (m_eval ex_sls) t \<and>
                              eval_is_correct ex_env_u (m_eval ex_sls) t = Inr False}"
proof -
  have "init_repair ex_env_u ex_sls = Inr (ex_sls\<lparr>m_repair_down := [1, 5]\<rparr>)"
    by (simp add: ex_env_u_def ex_init_defs ex_defs)
  moreover have "\<not> can_eval1 (eval_ops ex_env_u) (m_eval ex_sls) ex_u"
    by (simp add: ex_env_u_def ex_defs)
  moreover have "get_id ex_u \<notin> get_id ` {a \<in> set (assertions (m_terms ex_env_u)).
                              \<not> bval0 (eval_ops ex_env_u) (m_eval ex_sls) a}"
    by (auto simp: ex_env_u_def ex_defs)
  moreover have "get_id ex_u \<notin> get_id ` {t. Some t \<in> set (terms (m_terms ex_env_u)) \<and>
                              can_eval1 (eval_ops ex_env_u) (m_eval ex_sls) t \<and>
                              eval_is_correct ex_env_u (m_eval ex_sls) t = Inr False}"
    by (auto simp: ex_env_u_def ex_defs)
  ultimately show ?thesis
    by (simp add: ex_u_def)
qed


subsection \<open>\<^verbatim>\<open>reinit_eval\<close>\<close>













subsection \<open>\<^verbatim>\<open>operator()\<close> and \<^verbatim>\<open>updt_params\<close>\<close>

lemma run_loop_cases:
  assumes "run_loop E st = Inr (res, st')"
  obtains (answer) "search E st = Inr (res, st')" "res \<noteq> l_undef"
  | (interrupted) st1 st2 h where
      "search E st = Inr (l_undef, st1)" "reinit_eval E (trace E st1) = Inr st2"
      "inc E (m_limit st2) = (False, h)" "res = l_undef" "st' = st2\<lparr>m_limit := h\<rparr>"
  | (exhausted) st1 st2 h where
      "search E st = Inr (l_undef, st1)" "reinit_eval E (trace E st1) = Inr st2"
      "inc E (m_limit st2) = (True, h)"
      "\<not> m_restarts (m_stats st2) < m_max_restarts (m_config st2)" "res = l_undef"
      "st' = st2\<lparr>m_limit := h,
                 m_stats := (m_stats st2)\<lparr>m_restarts := m_restarts (m_stats st2) + 1\<rparr>\<rparr>"
  | (restart) st1 st2 h where
      "search E st = Inr (l_undef, st1)" "reinit_eval E (trace E st1) = Inr st2"
      "inc E (m_limit st2) = (True, h)"
      "m_restarts (m_stats st2) < m_max_restarts (m_config st2)"
      "run_loop E (st2\<lparr>m_limit := h,
                 m_stats := (m_stats st2)\<lparr>m_restarts := m_restarts (m_stats st2) + 1\<rparr>\<rparr>)
         = Inr (res, st')"
proof -
  note unfold = run_loop.simps [of E st]
  from assms obtain res1 st1 where s: "search E st = Inr (res1, st1)"
    by (cases "search E st") (auto simp: unfold)
  show ?thesis
  proof (cases "res1 = l_undef")
    case False
    with assms s show ?thesis
      by (intro answer) (simp_all add: unfold)
  next
    case True
    with assms s obtain st2 where re: "reinit_eval E (trace E st1) = Inr st2"
      by (cases "reinit_eval E (trace E st1)") (auto simp: unfold)
    obtain ok h where i: "inc E (m_limit st2) = (ok, h)"
      by (cases "inc E (m_limit st2)")
    show ?thesis
    proof (cases ok)
      case False
      with assms s True re i show ?thesis
        by (intro interrupted [of st1 st2 h]) (simp_all add: unfold)
    next
      case ok: True
      show ?thesis
      proof (cases "m_restarts (m_stats st2) < m_max_restarts (m_config st2)")
        case False
        with assms s True re i ok show ?thesis
          by (intro exhausted [of st1 st2 h]) (simp_all add: unfold Let_def)
      next
        case lt: True
        with assms s True re i ok show ?thesis
          by (intro restart [of st1 st2 h]) (simp_all add: unfold Let_def)
      qed
    qed
  qed
qed

lemma search_frame:
  assumes "search E st = Inr (res, st1)"
  shows "m_config st1 = m_config st \<and> m_restarts (m_stats st1) = m_restarts (m_stats st)
     \<and> restart_counts (verbose_stream st1) = restart_counts (verbose_stream st)"
  using search_loop_frame [OF assms [unfolded search_def]] .

lemma restart_frame:
  assumes s: "search E st = Inr (res, st1)" and re: "reinit_eval E (trace E st1) = Inr st2"
  shows "m_config st2 = m_config st \<and>
         m_restarts (m_stats st2) = m_restarts (m_stats st) \<and>
         restart_counts (verbose_stream st2) =
           restart_counts (verbose_stream st) @
           (if 2 \<le> verbosity_level E then [m_restarts (m_stats st)] else [])"
  using search_frame [OF s] reinit_eval_frame [OF re]
  by (simp add: trace_def restart_counts_append)

lemma run_resumes_loop:
  "run_resumes E st k st' \<Longrightarrow> run_loop E st = run_loop E st'"
proof (induction rule: run_resumes.induct)
  case (start st)
  show ?case by simp
next
  case (again st st1 st2 h k st')
  from again.hyps(1-4) again.IH show ?case
    by (simp add: run_loop.simps [of E st] Let_def)
qed

lemma run_resumes_count:
  "run_resumes E st k st' \<Longrightarrow>
   m_restarts (m_stats st) \<le> m_max_restarts (m_config st) \<Longrightarrow>
     m_config st' = m_config st \<and>
     unat (m_restarts (m_stats st')) = unat (m_restarts (m_stats st)) + k \<and>
     m_restarts (m_stats st') \<le> m_max_restarts (m_config st)"
proof (induction rule: run_resumes.induct)
  case (start st)
  then show ?case by simp
next
  case (again st st1 st2 h k st')
  let ?r = "m_restarts (m_stats st)"
  let ?max = "m_max_restarts (m_config st)"
  let ?st3 = "st2\<lparr>m_limit := h,
                 m_stats := (m_stats st2)\<lparr>m_restarts := m_restarts (m_stats st2) + 1\<rparr>\<rparr>"
  note fr = restart_frame [OF again.hyps(1,2)]
  from fr again.hyps(4) have lt: "?r < ?max" by simp
  then have suc: "unat (?r + 1) = Suc (unat ?r)" and le: "?r + 1 \<le> ?max"
    by unat_arith+
  from fr le have "m_restarts (m_stats ?st3) \<le> m_max_restarts (m_config ?st3)"
    by simp
  from again.IH [OF this] fr suc show ?case
    by simp
qed

lemma run_loop_counts_all:
  "run_loop E st = Inr (res, st') \<Longrightarrow>
   m_restarts (m_stats st) \<le> m_max_restarts (m_config st) \<Longrightarrow>
     \<exists>k. k \<le> unat (m_max_restarts (m_config st)) - unat (m_restarts (m_stats st)) + 1 \<and>
       restart_counts (verbose_stream st') =
         restart_counts (verbose_stream st) @
         (if 2 \<le> verbosity_level E
          then map (\<lambda>i. m_restarts (m_stats st) + of_nat i) [0..<k] else [])"
proof (induction E st rule: run_loop.induct)
  case (1 E st)
  let ?r = "m_restarts (m_stats st)"
  let ?max = "m_max_restarts (m_config st)"
  from "1.prems"(1) show ?case
  proof (cases rule: run_loop_cases)
    case answer
    from search_frame [OF answer(1)] show ?thesis
      by (intro exI [of _ 0]) simp
  next
    case (interrupted st1 st2 h)
    from restart_frame [OF interrupted(1,2)] interrupted(5) show ?thesis
      by (intro exI [of _ 1]) simp
  next
    case (exhausted st1 st2 h)
    from restart_frame [OF exhausted(1,2)] exhausted(6) show ?thesis
      by (intro exI [of _ 1]) simp
  next
    case (restart st1 st2 h)
    let ?st3 = "st2\<lparr>m_limit := h,
                 m_stats := (m_stats st2)\<lparr>m_restarts := m_restarts (m_stats st2) + 1\<rparr>\<rparr>"
    note fr = restart_frame [OF restart(1,2)]
    from fr restart(4) have lt: "?r < ?max" by simp
    then have suc: "unat (?r + 1) = Suc (unat ?r)" and le: "?r + 1 \<le> ?max"
      by unat_arith+
    from fr le have "m_restarts (m_stats ?st3) \<le> m_max_restarts (m_config ?st3)"
      by simp
    moreover have nn: "\<not> l_undef \<noteq> l_undef" by simp
    moreover from restart(4) have "m_restarts (m_stats st2) < m_max_restarts (m_config ?st3)"
      by simp
    ultimately have "\<exists>k. k \<le> unat (m_max_restarts (m_config ?st3)) - unat (m_restarts (m_stats ?st3)) + 1 \<and>
       restart_counts (verbose_stream st') =
         restart_counts (verbose_stream ?st3) @
         (if 2 \<le> verbosity_level E
          then map (\<lambda>i. m_restarts (m_stats ?st3) + of_nat i) [0..<k] else [])"
      using "1.IH" [OF restart(1) refl nn restart(2) restart(3) [symmetric] refl refl refl _
        restart(5)]
      by blast
    then obtain k where k: "k \<le> unat (m_max_restarts (m_config ?st3)) - unat (m_restarts (m_stats ?st3)) + 1"
      and c: "restart_counts (verbose_stream st') =
         restart_counts (verbose_stream ?st3) @
         (if 2 \<le> verbosity_level E
          then map (\<lambda>i. m_restarts (m_stats ?st3) + of_nat i) [0..<k] else [])"
      by auto
    from lt have "unat ?r < unat ?max" by (simp add: word_less_nat_alt)
    with k fr suc have k': "Suc k \<le> unat ?max - unat ?r + 1"
      by simp
    have "map (\<lambda>i. ?r + of_nat i) [0..<Suc k] = ?r # map (\<lambda>i. ?r + 1 + of_nat i) [0..<k]"
      by (simp add: map_upt_Suc del: upt_Suc)
    with c fr have "restart_counts (verbose_stream st') =
         restart_counts (verbose_stream st) @
         (if 2 \<le> verbosity_level E then map (\<lambda>i. ?r + of_nat i) [0..<Suc k] else [])"
      by simp
    with k' show ?thesis by blast
  qed
qed

lemma reinit_eval_total:
  assumes "\<forall>t. Some t \<in> set (terms (m_terms E)) \<longrightarrow> is_bool t \<or> is_bv t"
  shows "\<exists>st'. reinit_eval E st = Inr st'"
  using assms init_repair_terms_total [of "terms (m_terms E)" E]
  by (simp add: reinit_eval_def init_repair_def split: prod.splits)

lemma run_loop_total:
  "terms_sorted (m_terms E) \<Longrightarrow>
   \<forall>t. Some t \<in> set (terms (m_terms E)) \<longrightarrow> is_bool t \<or> is_bv t \<Longrightarrow>
     \<exists>res st'. run_loop E st = Inr (res, st')"
proof (induction E st rule: run_loop.induct)
  case (1 E st)
  note unfold = run_loop.simps [of E st]
  from search_loop_total [OF "1.prems"(1), of 0 st] obtain res1 st1 where
    s: "search E st = Inr (res1, st1)"
    by (auto simp: search_def)
  show ?case
  proof (cases "res1 = l_undef")
    case False
    with s show ?thesis by (simp add: unfold)
  next
    case True
    from reinit_eval_total [OF "1.prems"(2), of "trace E st1"] obtain st2 where
      re: "reinit_eval E (trace E st1) = Inr st2" ..
    obtain ok h where i: "inc E (m_limit st2) = (ok, h)"
      by (cases "inc E (m_limit st2)")
    let ?st3 = "st2\<lparr>m_limit := h,
                 m_stats := (m_stats st2)\<lparr>m_restarts := m_restarts (m_stats st2) + 1\<rparr>\<rparr>"
    show ?thesis
    proof (cases "ok \<and> m_restarts (m_stats st2) < m_max_restarts (m_config st2)")
      case False
      with s True re i show ?thesis
        by (cases ok) (simp_all add: unfold Let_def)
    next
      case go: True
      have nn: "\<not> res1 \<noteq> l_undef" using True by simp
      from go have lt: "m_restarts (m_stats st2) < m_max_restarts (m_config ?st3)" and ok: "ok = True"
        by simp_all
      from "1.IH" [OF s refl nn re i [symmetric] ok refl refl lt "1.prems"]
      obtain res st' where "run_loop E ?st3 = Inr (res, st')"
        by blast
      with s True re i go show ?thesis
        by (simp add: unfold Let_def)
    qed
  qed
qed

text \<open>
  Claim C7, as amended. \<^verbatim>\<open>operator()\<close> returns when the index and the terms are
  sorted. A \<^verbatim>\<open>search\<close> that returns a definite answer ends the run. After a
  \<^verbatim>\<open>search\<close> that returns \<^verbatim>\<open>l_undef\<close>: first \<^verbatim>\<open>trace\<close> runs, and with
  verbosity at least 2 emits the line that reports the restart counter as it is, not yet
  incremented, and the sizes of \<open>down\<close> and \<open>up\<close>; then \<^verbatim>\<open>reinit_eval\<close>
  reseeds the assignment, also when no restart remains; then, only if \<^verbatim>\<open>m.inc()\<close>
  holds, the counter is incremented, and \<^verbatim>\<open>search\<close> resumes if the counter was below
  \<^verbatim>\<open>m_max_restarts\<close> before the increment. So \<^verbatim>\<open>search\<close> resumes at most
  \<^verbatim>\<open>m_max_restarts\<close> times, the counter being the number of resumptions, and the
  restart lines of a run report \<open>0, 1, ..., k - 1\<close> for some
  \<open>k \<le> m_max_restarts + 1\<close>; below verbosity 2 there is no such line.
\<close>

theorem run_restart_trace:
  "(terms_sorted (m_terms E) \<and>
    (\<forall>t. Some t \<in> set (terms (m_terms E)) \<longrightarrow> is_bool t \<or> is_bv t) \<longrightarrow>
      (\<exists>res st'. run E st = Inr (res, st'))) \<and>
   (\<forall>res st1. search E st = Inr (res, st1) \<and> res \<noteq> l_undef \<longrightarrow>
      run_loop E st = Inr (res, st1)) \<and>
   (\<forall>st1 st2 ok h.
      search E st = Inr (l_undef, st1) \<and> reinit_eval E (trace E st1) = Inr st2 \<and>
      inc E (m_limit st2) = (ok, h) \<longrightarrow>
        trace E st1 =
          (if 2 \<le> verbosity_level E
           then st1\<lparr>verbose_stream := verbose_stream st1 @
                  [Restart_line (m_restarts (m_stats st))
                     (length (m_repair_down st1)) (length (m_repair_up st1))]\<rparr>
           else st1) \<and>
        m_restarts (m_stats st2) = m_restarts (m_stats st) \<and>
        run_loop E st =
          (if ok then
             (if m_restarts (m_stats st) < m_max_restarts (m_config st)
              then run_loop E (st2\<lparr>m_limit := h,
                     m_stats := (m_stats st2)\<lparr>m_restarts := m_restarts (m_stats st) + 1\<rparr>\<rparr>)
              else Inr (l_undef, st2\<lparr>m_limit := h,
                     m_stats := (m_stats st2)\<lparr>m_restarts := m_restarts (m_stats st) + 1\<rparr>\<rparr>))
           else Inr (l_undef, st2\<lparr>m_limit := h\<rparr>))) \<and>
   (\<forall>k st'. run_resumes E (st\<lparr>m_stats := \<lparr>m_moves = 0, m_restarts = 0\<rparr>\<rparr>) k st' \<longrightarrow>
      k \<le> unat (m_max_restarts (m_config st)) \<and>
      m_restarts (m_stats st') = of_nat k \<and>
      run E st = run_loop E st') \<and>
   (\<forall>res st'. run E st = Inr (res, st') \<longrightarrow>
      (\<exists>k. k \<le> unat (m_max_restarts (m_config st)) + 1 \<and>
         restart_counts (verbose_stream st') =
           restart_counts (verbose_stream st) @
           (if 2 \<le> verbosity_level E then map of_nat [0..<k] else [])))"
proof (intro conjI)
  show "terms_sorted (m_terms E) \<and>
          (\<forall>t. Some t \<in> set (terms (m_terms E)) \<longrightarrow> is_bool t \<or> is_bv t) \<longrightarrow>
            (\<exists>res st'. run E st = Inr (res, st'))"
    using run_loop_total [of E] by (simp add: run_def)
next
  show "\<forall>res st1. search E st = Inr (res, st1) \<and> res \<noteq> l_undef \<longrightarrow>
      run_loop E st = Inr (res, st1)"
    by (simp add: run_loop.simps [of E st])
next
  show "\<forall>st1 st2 ok h.
      search E st = Inr (l_undef, st1) \<and> reinit_eval E (trace E st1) = Inr st2 \<and>
      inc E (m_limit st2) = (ok, h) \<longrightarrow>
        trace E st1 =
          (if 2 \<le> verbosity_level E
           then st1\<lparr>verbose_stream := verbose_stream st1 @
                  [Restart_line (m_restarts (m_stats st))
                     (length (m_repair_down st1)) (length (m_repair_up st1))]\<rparr>
           else st1) \<and>
        m_restarts (m_stats st2) = m_restarts (m_stats st) \<and>
        run_loop E st =
          (if ok then
             (if m_restarts (m_stats st) < m_max_restarts (m_config st)
              then run_loop E (st2\<lparr>m_limit := h,
                     m_stats := (m_stats st2)\<lparr>m_restarts := m_restarts (m_stats st) + 1\<rparr>\<rparr>)
              else Inr (l_undef, st2\<lparr>m_limit := h,
                     m_stats := (m_stats st2)\<lparr>m_restarts := m_restarts (m_stats st) + 1\<rparr>\<rparr>))
           else Inr (l_undef, st2\<lparr>m_limit := h\<rparr>))"
  proof (intro allI impI, elim conjE)
    fix st1 st2 ok h
    assume s: "search E st = Inr (l_undef, st1)" and re: "reinit_eval E (trace E st1) = Inr st2"
      and i: "inc E (m_limit st2) = (ok, h)"
    note fr = restart_frame [OF s re]
    from search_frame [OF s] have "trace E st1 =
          (if 2 \<le> verbosity_level E
           then st1\<lparr>verbose_stream := verbose_stream st1 @
                  [Restart_line (m_restarts (m_stats st))
                     (length (m_repair_down st1)) (length (m_repair_up st1))]\<rparr>
           else st1)"
      by (simp add: trace_def uset_size_def)
    moreover from s re i fr have "run_loop E st =
                (if ok then
                   (if m_restarts (m_stats st) < m_max_restarts (m_config st)
                    then run_loop E (st2\<lparr>m_limit := h,
                           m_stats := (m_stats st2)\<lparr>m_restarts := m_restarts (m_stats st) + 1\<rparr>\<rparr>)
                    else Inr (l_undef, st2\<lparr>m_limit := h,
                           m_stats := (m_stats st2)\<lparr>m_restarts := m_restarts (m_stats st) + 1\<rparr>\<rparr>))
                 else Inr (l_undef, st2\<lparr>m_limit := h\<rparr>))"
      by (cases ok) (simp_all add: run_loop.simps [of E st] Let_def)
    ultimately show "trace E st1 =
          (if 2 \<le> verbosity_level E
           then st1\<lparr>verbose_stream := verbose_stream st1 @
                  [Restart_line (m_restarts (m_stats st))
                     (length (m_repair_down st1)) (length (m_repair_up st1))]\<rparr>
           else st1) \<and>
        m_restarts (m_stats st2) = m_restarts (m_stats st) \<and>
        run_loop E st =
          (if ok then
             (if m_restarts (m_stats st) < m_max_restarts (m_config st)
              then run_loop E (st2\<lparr>m_limit := h,
                     m_stats := (m_stats st2)\<lparr>m_restarts := m_restarts (m_stats st) + 1\<rparr>\<rparr>)
              else Inr (l_undef, st2\<lparr>m_limit := h,
                     m_stats := (m_stats st2)\<lparr>m_restarts := m_restarts (m_stats st) + 1\<rparr>\<rparr>))
           else Inr (l_undef, st2\<lparr>m_limit := h\<rparr>))"
      using fr by blast
  qed
next
  show "\<forall>k st'. run_resumes E (st\<lparr>m_stats := \<lparr>m_moves = 0, m_restarts = 0\<rparr>\<rparr>) k st' \<longrightarrow>
      k \<le> unat (m_max_restarts (m_config st)) \<and>
      m_restarts (m_stats st') = of_nat k \<and>
      run E st = run_loop E st'"
  proof (intro allI impI)
    fix k st'
    let ?st0 = "st\<lparr>m_stats := \<lparr>m_moves = 0, m_restarts = 0\<rparr>\<rparr>"
    assume rr: "run_resumes E ?st0 k st'"
    have "m_restarts (m_stats ?st0) \<le> m_max_restarts (m_config ?st0)"
      by simp
    from run_resumes_count [OF rr this]
    have u: "unat (m_restarts (m_stats st')) = k"
      and le: "m_restarts (m_stats st') \<le> m_max_restarts (m_config st)"
      by simp_all
    from le u have "k \<le> unat (m_max_restarts (m_config st))"
      by (simp add: word_le_nat_alt)
    moreover from u have "m_restarts (m_stats st') = of_nat k"
      by auto
    moreover from run_resumes_loop [OF rr] have "run E st = run_loop E st'"
      by (simp add: run_def)
    ultimately show "k \<le> unat (m_max_restarts (m_config st)) \<and>
      m_restarts (m_stats st') = of_nat k \<and>
      run E st = run_loop E st'"
      by blast
  qed
next
  show "\<forall>res st'. run E st = Inr (res, st') \<longrightarrow>
      (\<exists>k. k \<le> unat (m_max_restarts (m_config st)) + 1 \<and>
         restart_counts (verbose_stream st') =
           restart_counts (verbose_stream st) @
           (if 2 \<le> verbosity_level E then map of_nat [0..<k] else []))"
  proof (intro allI impI)
    fix res st'
    assume "run E st = Inr (res, st')"
    then have "run_loop E (st\<lparr>m_stats := \<lparr>m_moves = 0, m_restarts = 0\<rparr>\<rparr>) = Inr (res, st')"
      by (simp add: run_def)
    from run_loop_counts_all [OF this]
    obtain k where "k \<le> unat (m_max_restarts (m_config st)) + 1"
      and "restart_counts (verbose_stream st') =
           restart_counts (verbose_stream st) @
           (if 2 \<le> verbosity_level E then map (\<lambda>i. 0 + of_nat i) [0..<k] else [])"
      by auto
    then show "\<exists>k. k \<le> unat (m_max_restarts (m_config st)) + 1 \<and>
         restart_counts (verbose_stream st') =
           restart_counts (verbose_stream st) @
           (if 2 \<le> verbosity_level E then map of_nat [0..<k] else [])"
      by (intro exI [of _ k]) simp
  qed
qed

theorem run_restart_trace_witness:
  "run_resumes (ex_env\<lparr>verbosity_level := 0\<rparr>)
     (ex_sls\<lparr>m_config := \<lparr>m_max_restarts = 1, m_max_repairs = 0\<rparr>,
            m_stats := \<lparr>m_moves = 0, m_restarts = 0\<rparr>\<rparr>) 1
     (ex_sls\<lparr>m_eval := {1, 2}, m_rand := 2, m_repair_down := [], m_repair_up := [],
            m_config := \<lparr>m_max_restarts = 1, m_max_repairs = 0\<rparr>,
            m_stats := \<lparr>m_moves = 0, m_restarts = 1\<rparr>, m_limit := 99\<rparr>) \<and>
   1 \<le> unat (1 :: 32 word) \<and>
   run (ex_env\<lparr>verbosity_level := 0\<rparr>)
     (ex_sls\<lparr>m_config := \<lparr>m_max_restarts = 1, m_max_repairs = 0\<rparr>\<rparr>) =
     Inr (l_undef,
       ex_sls\<lparr>m_eval := {1, 2}, m_rand := 4, m_repair_down := [], m_repair_up := [],
              m_config := \<lparr>m_max_restarts = 1, m_max_repairs = 0\<rparr>,
              m_stats := \<lparr>m_moves = 0, m_restarts = 2\<rparr>, m_limit := 98\<rparr>) \<and>
   run_loop (ex_env\<lparr>verbosity_level := 0\<rparr>)
     (ex_sls\<lparr>m_eval := {1, 2}, m_rand := 2, m_repair_down := [], m_repair_up := [],
            m_config := \<lparr>m_max_restarts = 1, m_max_repairs = 0\<rparr>,
            m_stats := \<lparr>m_moves = 0, m_restarts = 1\<rparr>, m_limit := 99\<rparr>) =
     Inr (l_undef,
       ex_sls\<lparr>m_eval := {1, 2}, m_rand := 4, m_repair_down := [], m_repair_up := [],
              m_config := \<lparr>m_max_restarts = 1, m_max_repairs = 0\<rparr>,
              m_stats := \<lparr>m_moves = 0, m_restarts = 2\<rparr>, m_limit := 98\<rparr>) \<and>
   trace (ex_env\<lparr>verbosity_level := 0\<rparr>)
     (ex_sls\<lparr>m_config := \<lparr>m_max_restarts = 1, m_max_repairs = 0\<rparr>,
            m_stats := \<lparr>m_moves = 0, m_restarts = 0\<rparr>\<rparr>) =
     ex_sls\<lparr>m_config := \<lparr>m_max_restarts = 1, m_max_repairs = 0\<rparr>,
            m_stats := \<lparr>m_moves = 0, m_restarts = 0\<rparr>\<rparr> \<and>
   run ex_env (ex_sls\<lparr>m_config := \<lparr>m_max_restarts = 1, m_max_repairs = 0\<rparr>\<rparr>) =
     Inr (l_undef,
       ex_sls\<lparr>m_eval := {1, 2}, m_rand := 4, m_repair_down := [], m_repair_up := [],
              m_config := \<lparr>m_max_restarts = 1, m_max_repairs = 0\<rparr>,
              m_stats := \<lparr>m_moves = 0, m_restarts = 2\<rparr>, m_limit := 98,
              verbose_stream := [Restart_line 0 1 0, Restart_line 1 0 0]\<rparr>) \<and>
   (\<exists>k. k \<le> unat (1 :: 32 word) + 1 \<and> [0, 1 :: 32 word] = map of_nat [0..<k])"
proof -
  let ?E = "ex_env\<lparr>verbosity_level := 0\<rparr>"
  let ?arg = "ex_sls\<lparr>m_config := \<lparr>m_max_restarts = 1, m_max_repairs = 0\<rparr>\<rparr>"
  let ?ini = "ex_sls\<lparr>m_config := \<lparr>m_max_restarts = 1, m_max_repairs = 0\<rparr>,
            m_stats := \<lparr>m_moves = 0, m_restarts = 0\<rparr>\<rparr>"
  let ?mid = "ex_sls\<lparr>m_eval := {1, 2}, m_rand := 2, m_repair_down := [], m_repair_up := [],
            m_config := \<lparr>m_max_restarts = 1, m_max_repairs = 0\<rparr>,
            m_stats := \<lparr>m_moves = 0, m_restarts = 0\<rparr>\<rparr>"
  let ?nxt = "ex_sls\<lparr>m_eval := {1, 2}, m_rand := 2, m_repair_down := [], m_repair_up := [],
            m_config := \<lparr>m_max_restarts = 1, m_max_repairs = 0\<rparr>,
            m_stats := \<lparr>m_moves = 0, m_restarts = 1\<rparr>, m_limit := 99\<rparr>"
  let ?fin = "ex_sls\<lparr>m_eval := {1, 2}, m_rand := 4, m_repair_down := [], m_repair_up := [],
              m_config := \<lparr>m_max_restarts = 1, m_max_repairs = 0\<rparr>,
              m_stats := \<lparr>m_moves = 0, m_restarts = 2\<rparr>, m_limit := 98\<rparr>"
  have s: "search ?E ?ini = Inr (l_undef, ?ini)"
    by (simp add: ex_search_defs ex_defs)
  have re: "reinit_eval ?E (trace ?E ?ini) = Inr ?mid"
    by (simp add: trace_def reinit_eval_def reinit_oracle_def should_keep_def random_bit_def
        ex_init_defs ex_defs insert_commute)
  have i: "inc ?E (m_limit ?mid) = (True, 99)"
    by (simp add: ex_defs)
  have lt: "m_restarts (m_stats ?mid) < m_max_restarts (m_config ?mid)"
    by (simp add: ex_defs)
  have st3: "?mid\<lparr>m_limit := 99,
      m_stats := (m_stats ?mid)\<lparr>m_restarts := m_restarts (m_stats ?mid) + 1\<rparr>\<rparr> = ?nxt"
    by (simp add: ex_defs)
  have rr: "run_resumes ?E ?ini 1 ?nxt"
    using run_resumes.again [OF s re i lt run_resumes.start] unfolding st3 by simp
  have r: "run ?E ?arg = Inr (l_undef, ?fin)"
    by (simp add: ex_run_defs ex_search_defs ex_init_defs ex_move_defs ex_defs insert_commute)
  note t = run_restart_trace [of ?E ?arg, THEN conjunct2, THEN conjunct2, THEN conjunct2,
      THEN conjunct1, rule_format, of 1 ?nxt, OF rr]
  from t have a: "1 \<le> unat (1 :: 32 word)" and b: "run ?E ?arg = run_loop ?E ?nxt"
    by simp_all
  from b r have c: "run_loop ?E ?nxt = Inr (l_undef, ?fin)"
    by (rule subst)
  have hs: "search ?E ?ini = Inr (l_undef, ?ini) \<and> reinit_eval ?E (trace ?E ?ini) = Inr ?mid \<and>
      inc ?E (m_limit ?mid) = (True, 99)"
    using s re i by (intro conjI)
  from run_restart_trace [of ?E ?ini, THEN conjunct2, THEN conjunct2, THEN conjunct1,
      rule_format, OF hs]
  have tr: "trace ?E ?ini = ?ini"
    by (simp add: ex_defs)
  let ?fin20 = "ex_sls\<lparr>m_eval := {1, 2}, m_rand := 4, m_repair_down := [], m_repair_up := [],
              m_config := \<lparr>m_max_restarts = 1, m_max_repairs = 0\<rparr>,
              m_stats := \<lparr>m_moves = 0, m_restarts = 2\<rparr>, m_limit := 98,
              verbose_stream := [Restart_line 0 1 0, Restart_line 1 0 0]\<rparr>"
  have r20: "run ex_env ?arg = Inr (l_undef, ?fin20)"
    by (simp add: ex_run_defs ex_search_defs ex_init_defs ex_move_defs ex_defs insert_commute)
  from run_restart_trace [of ex_env ?arg, THEN conjunct2, THEN conjunct2, THEN conjunct2,
      THEN conjunct2, rule_format, OF r20]
  have cnt: "\<exists>k. k \<le> unat (1 :: 32 word) + 1 \<and> [0, 1 :: 32 word] = map of_nat [0..<k]"
    by (simp add: ex_defs)
  from rr a r c tr r20 cnt show ?thesis
    by (intro conjI)
qed

text \<open>
  The claim as written has the counter incremented before the trace line. In the
  instance with no move allowed and one restart, the first line reports 0 and the
  second 1; \<^verbatim>\<open>search\<close> resumes once, \<^verbatim>\<open>reinit_eval\<close> runs twice and the counter ends
  at 2.
\<close>

theorem run_trace_before_increment_counterexample:
  "run ex_env (ex_sls\<lparr>m_config := \<lparr>m_max_restarts = 1, m_max_repairs = 0\<rparr>\<rparr>) =
     Inr (l_undef,
       ex_sls\<lparr>m_eval := {1, 2}, m_rand := 4, m_repair_down := [], m_repair_up := [],
              m_config := \<lparr>m_max_restarts = 1, m_max_repairs = 0\<rparr>,
              m_stats := \<lparr>m_moves = 0, m_restarts = 2\<rparr>, m_limit := 98,
              verbose_stream := [Restart_line 0 1 0, Restart_line 1 0 0]\<rparr>)"
  by (simp add: ex_run_defs ex_search_defs ex_init_defs ex_move_defs ex_defs insert_commute)

lemma next_to_repair_log:
  "next_to_repair E (with_log vs st) =
     (case next_to_repair E st of (d, eo, st') \<Rightarrow> (d, eo, with_log vs st'))"
  by (simp add: next_to_repair_def with_log_def split: prod.splits)

lemma try_repair_down_at_log:
  "try_repair_down_at E e i (with_log vs st) =
     (case try_repair_down_at E e i st of (b, st') \<Rightarrow> (b, with_log vs st'))"
  by (simp add: try_repair_down_at_def with_log_def Let_def split: prod.splits)

lemma try_repair_down_loop_log:
  "try_repair_down_loop E e s n i (with_log vs st) =
     (case try_repair_down_loop E e s n i st of (b, st') \<Rightarrow> (b, with_log vs st'))"
proof (induction E e s n i st rule: try_repair_down_loop.induct)
  case (1 E e s n i st)
  note unfold = try_repair_down_loop.simps [of E e s n i st]
    try_repair_down_loop.simps [of E e s n i "with_log vs st"]
  show ?case
  proof (cases "i < n")
    case False
    then show ?thesis by (simp add: unfold)
  next
    case True
    obtain b st1 where at: "try_repair_down_at E e ((i + s) mod 4294967296 mod n) st = (b, st1)"
      by (cases "try_repair_down_at E e ((i + s) mod 4294967296 mod n) st")
    show ?thesis
    proof (cases b)
      case True
      with \<open>i < n\<close> at show ?thesis
        by (simp add: unfold try_repair_down_at_log)
    next
      case False
      from "1.IH" [OF \<open>i < n\<close> at [symmetric]] False \<open>i < n\<close> at show ?thesis
        by (simp add: unfold try_repair_down_at_log)
    qed
  qed
qed

lemma try_repair_down_log:
  "try_repair_down E e (with_log vs st) = with_log vs (try_repair_down E e st)"
proof -
  have r: "m_rand (with_log vs st) = m_rand st"
    and u: "\<And>r. (with_log vs st)\<lparr>m_rand := r\<rparr> = with_log vs (st\<lparr>m_rand := r\<rparr>)"
    by (simp_all add: with_log_def)
  show ?thesis
    unfolding try_repair_down_def r
    by (simp add: u try_repair_down_loop_log Let_def split: prod.splits bool.splits)
      (simp add: with_log_def)
qed

lemma try_repair_up_log:
  "try_repair_up E e (with_log vs st) = with_log vs (try_repair_up E e st)"
  by (simp add: try_repair_up_def with_log_def Let_def)

lemma search_body_log:
  "search_body E (with_log vs st) =
     (case search_body E st of Inl err \<Rightarrow> Inl err | Inr (r, st') \<Rightarrow> Inr (r, with_log vs st'))"
proof -
  let ?st1 = "st\<lparr>m_stats := (m_stats st)\<lparr>m_moves := m_moves (m_stats st) + 1\<rparr>\<rparr>"
  have st1: "(with_log vs st)\<lparr>m_stats := (m_stats (with_log vs st))
      \<lparr>m_moves := m_moves (m_stats (with_log vs st)) + 1\<rparr>\<rparr> = with_log vs ?st1"
    by (simp add: with_log_def)
  obtain d eo st2 where nx: "next_to_repair E ?st1 = (d, eo, st2)"
    by (cases "next_to_repair E ?st1") auto
  then have nx': "next_to_repair E (with_log vs ?st1) = (d, eo, with_log vs st2)"
    by (simp add: next_to_repair_log)
  have ev: "m_eval (with_log vs st2) = m_eval st2"
    by (simp add: with_log_def)
  show ?thesis
  proof (cases eo)
    case None
    with nx nx' show ?thesis
      by (simp add: search_body_def st1)
  next
    case (Some e)
    show ?thesis
    proof (cases "eval_is_correct E (m_eval st2) e")
      case (Inl err)
      with nx nx' Some ev show ?thesis
        by (simp add: search_body_def st1)
    next
      case (Inr c)
      have l: "\<And>l. (with_log vs st2)\<lparr>verbose_stream := verbose_stream (with_log vs st2) @ l\<rparr> =
          with_log vs (st2\<lparr>verbose_stream := verbose_stream st2 @ l\<rparr>)"
        and dn: "\<And>s x. (with_log vs s)\<lparr>m_repair_down := x\<rparr> = with_log vs (s\<lparr>m_repair_down := x\<rparr>)"
        and up: "\<And>s x. (with_log vs s)\<lparr>m_repair_up := x\<rparr> = with_log vs (s\<lparr>m_repair_up := x\<rparr>)"
        and dn': "\<And>s. m_repair_down (with_log vs s) = m_repair_down s"
        and up': "\<And>s. m_repair_up (with_log vs s) = m_repair_up s"
        by (simp_all add: with_log_def)
      from nx nx' Some ev Inr show ?thesis
        by (simp add: search_body_def st1 Let_def l dn up dn' up'
            try_repair_down_log try_repair_up_log)
    qed
  qed
qed

lemma search_loop_log:
  "search_loop E n (with_log vs st) =
     (case search_loop E n st of Inl err \<Rightarrow> Inl err
      | Inr (res, st') \<Rightarrow> Inr (res, with_log vs st'))"
proof (induction E n st rule: search_loop.induct)
  case (1 E n st)
  note unfold = search_loop.simps [of E n st] search_loop.simps [of E n "with_log vs st"]
  have c: "m_config (with_log vs st) = m_config st" and h: "m_limit (with_log vs st) = m_limit st"
    and u: "\<And>h. (with_log vs st)\<lparr>m_limit := h\<rparr> = with_log vs (st\<lparr>m_limit := h\<rparr>)"
    by (simp_all add: with_log_def)
  show ?case
  proof (cases "n < m_max_repairs (m_config st)")
    case False
    then show ?thesis by (simp add: unfold c)
  next
    case True
    obtain ok h' where ih: "inc E (m_limit st) = (ok, h')"
      by (cases "inc E (m_limit st)")
    show ?thesis
    proof (cases ok)
      case False
      with True ih show ?thesis by (simp add: unfold c h u)
    next
      case ok: True
      show ?thesis
      proof (cases "search_body E (st\<lparr>m_limit := h'\<rparr>)")
        case (Inl err)
        with True ih ok show ?thesis
          by (simp add: unfold c h u search_body_log)
      next
        case (Inr b)
        obtain r st1 where b: "b = (r, st1)" by (cases b)
        show ?thesis
        proof (cases r)
          case (Some res')
          with True ih ok Inr b show ?thesis
            by (simp add: unfold c h u search_body_log)
        next
          case None
          from "1.IH" [OF True _ _ Inr [unfolded b] _ None] ih ok
          have "search_loop E (n + 1) (with_log vs st1) =
              (case search_loop E (n + 1) st1 of Inl err \<Rightarrow> Inl err
               | Inr (res, st') \<Rightarrow> Inr (res, with_log vs st'))"
            by simp
          with True ih ok Inr b None show ?thesis
            by (simp add: unfold c h u search_body_log)
        qed
      qed
    qed
  qed
qed

lemma search_log:
  "search E (with_log vs st) =
     (case search E st of Inl err \<Rightarrow> Inl err | Inr (res, st') \<Rightarrow> Inr (res, with_log vs st'))"
  by (simp add: search_def search_loop_log)

lemma init_repair_assertions_log:
  "fold (init_repair_assertion E) as (with_log vs st) =
     with_log vs (fold (init_repair_assertion E) as st)"
proof (induction as arbitrary: st)
  case Nil
  show ?case by simp
next
  case (Cons a as)
  have "init_repair_assertion E a (with_log vs st) = with_log vs (init_repair_assertion E a st)"
    by (simp add: init_repair_assertion_def with_log_def)
  with Cons.IH show ?case by simp
qed

lemma init_repair_terms_log:
  "init_repair_terms E ts (with_log vs st) =
     (case init_repair_terms E ts st of Inl err \<Rightarrow> Inl err | Inr st' \<Rightarrow> Inr (with_log vs st'))"
proof (induction E ts st rule: init_repair_terms.induct)
  case (1 E st)
  show ?case by simp
next
  case (2 E ts st)
  then show ?case by simp
next
  case (3 E t ts st)
  have ev: "m_eval (with_log vs st) = m_eval st"
    and u: "\<And>x. (with_log vs st)\<lparr>m_repair_down := x\<rparr> = with_log vs (st\<lparr>m_repair_down := x\<rparr>)"
    and d: "m_repair_down (with_log vs st) = m_repair_down st"
    by (simp_all add: with_log_def)
  show ?case
  proof (cases "eval_is_correct E (m_eval st) t")
    case (Inl err)
    then show ?thesis by (simp add: ev)
  next
    case (Inr c)
    from "3.IH" [OF Inr] Inr show ?thesis
      by (cases c) (simp_all add: ev u d)
  qed
qed

lemma init_repair_log:
  "init_repair E (with_log vs st) =
     (case init_repair E st of Inl err \<Rightarrow> Inl err | Inr st' \<Rightarrow> Inr (with_log vs st'))"
proof -
  have "(with_log vs st)\<lparr>m_repair_down := uset_reset, m_repair_up := uset_reset\<rparr> =
        with_log vs (st\<lparr>m_repair_down := uset_reset, m_repair_up := uset_reset\<rparr>)"
    by (simp add: with_log_def)
  then show ?thesis
    by (simp add: init_repair_def init_repair_assertions_log init_repair_terms_log)
qed

lemma reinit_eval_log:
  "reinit_eval E (with_log vs st) =
     (case reinit_eval E st of Inl err \<Rightarrow> Inl err | Inr st' \<Rightarrow> Inr (with_log vs st'))"
proof -
  have e: "m_eval (with_log vs st) = m_eval st" "m_rand (with_log vs st) = m_rand st"
    and u: "\<And>ev r. (with_log vs st)\<lparr>m_eval := ev, m_rand := r\<rparr> =
              with_log vs (st\<lparr>m_eval := ev, m_rand := r\<rparr>)"
    by (simp_all add: with_log_def)
  show ?thesis
    by (simp add: reinit_eval_def e u init_repair_log split: prod.splits)
qed

lemma trace_log: "trace E (with_log vs st) = with_log vs (trace E st)"
  by (simp add: trace_def with_log_def)

lemma run_loop_log:
  "run_loop E (with_log vs st) =
     (case run_loop E st of Inl err \<Rightarrow> Inl err
      | Inr (res, st') \<Rightarrow> Inr (res, with_log vs st'))"
proof (induction E st rule: run_loop.induct)
  case (1 E st)
  note unfold = run_loop.simps [of E st] run_loop.simps [of E "with_log vs st"]
  have f: "\<And>s. m_limit (with_log vs s) = m_limit s" "\<And>s. m_stats (with_log vs s) = m_stats s"
    "\<And>s. m_config (with_log vs s) = m_config s"
    and u: "\<And>s h. (with_log vs s)\<lparr>m_limit := h\<rparr> = with_log vs (s\<lparr>m_limit := h\<rparr>)"
      "\<And>s x. (with_log vs s)\<lparr>m_stats := x\<rparr> = with_log vs (s\<lparr>m_stats := x\<rparr>)"
    by (simp_all add: with_log_def)
  show ?case
  proof (cases "search E st")
    case (Inl err)
    then show ?thesis by (simp add: unfold search_log)
  next
    case (Inr b)
    obtain res1 st1 where b: "b = (res1, st1)" by (cases b)
    show ?thesis
    proof (cases "res1 = l_undef")
      case False
      with Inr b show ?thesis by (simp add: unfold search_log)
    next
      case True
      show ?thesis
      proof (cases "reinit_eval E (trace E st1)")
        case (Inl err)
        with Inr b True show ?thesis
          by (simp add: unfold search_log trace_log reinit_eval_log)
      next
        case re: (Inr st2)
        obtain ok h where i: "inc E (m_limit st2) = (ok, h)"
          by (cases "inc E (m_limit st2)")
        let ?st3 = "st2\<lparr>m_limit := h,
                 m_stats := (m_stats st2)\<lparr>m_restarts := m_restarts (m_stats st2) + 1\<rparr>\<rparr>"
        show ?thesis
        proof (cases "ok \<and> m_restarts (m_stats st2) < m_max_restarts (m_config st2)")
          case False
          with Inr b True re i show ?thesis
            by (cases ok) (simp_all add: unfold search_log trace_log reinit_eval_log f u Let_def)
        next
          case go: True
          have nn: "\<not> res1 \<noteq> l_undef" using True by simp
          from go have lt: "m_restarts (m_stats st2) < m_max_restarts (m_config ?st3)"
            and ok: "ok = True"
            by simp_all
          from "1.IH" [OF Inr [unfolded b] refl nn re i [symmetric] ok refl refl lt]
          have "run_loop E (with_log vs ?st3) =
              (case run_loop E ?st3 of Inl err \<Rightarrow> Inl err
               | Inr (res, st') \<Rightarrow> Inr (res, with_log vs st'))" .
          with Inr b True re i go show ?thesis
            by (simp add: unfold search_log trace_log reinit_eval_log f u Let_def)
        qed
      qed
    qed
  qed
qed

lemma search_body_logs_pick:
  assumes v: "20 \<le> verbosity_level E"
    and nx: "next_to_repair E (st\<lparr>m_stats := (m_stats st)\<lparr>m_moves := m_moves (m_stats st) + 1\<rparr>\<rparr>)
               = (d, Some e, st2)"
    and sb: "search_body E st = Inr (r, st')"
  shows "\<exists>l. verbose_stream st' = verbose_stream st @ [l] \<and> picks [l] = [(d, get_id e)]"
proof -
  from sb nx obtain c where c: "eval_is_correct E (m_eval st2) e = Inr c"
    by (auto simp: search_body_def split: sum.splits)
  let ?l = "move_line E (m_eval st2) d e c"
  let ?st3 = "st2\<lparr>verbose_stream := verbose_stream st2 @ [?l]\<rparr>"
  from next_to_repair_frame [OF nx] have vs: "verbose_stream st2 = verbose_stream st"
    by simp
  from sb nx c v have "st' =
        (if c then
           (if d
            then ?st3\<lparr>m_repair_down := uset_remove (get_id e) (m_repair_down ?st3)\<rparr>
            else ?st3\<lparr>m_repair_up := uset_remove (get_id e) (m_repair_up ?st3)\<rparr>)
         else if d then try_repair_down E e ?st3
         else try_repair_up E e ?st3)"
    by (auto simp: search_body_def Let_def)
  with try_repair_down_frame [of E e ?st3] try_repair_up_frame [of E e ?st3] vs
  have "verbose_stream st' = verbose_stream st @ [?l]"
    by (simp split: if_splits)
  moreover have "picks [?l] = [(d, get_id e)]"
    by (simp add: move_line_def)
  ultimately show ?thesis by blast
qed

text \<open>
  Claim C8, as amended. Two runs in the same environment (terms, evaluator, generator,
  \<^verbatim>\<open>m.inc()\<close>), from engine states that agree on the assignment, the two repair sets,
  the move budget and the state of the host's resource limit, configured by
  \<^verbatim>\<open>updt_params\<close> with the same parameters: both abort, or both return the same
  outcome and the same final state and append the same lines to their verbose streams,
  whatever the generator states, the counters, the restart budgets and the streams were
  before. With verbosity at least 20 every round of \<^verbatim>\<open>search\<close> that picks a node
  appends one line, with the set and the id of the pick, so the two sequences of picks
  are the same. The generator is not the only source of different runs: the answers of
  \<^verbatim>\<open>m.inc()\<close> are one as well.
\<close>

theorem run_seed_deterministic:
  assumes ev: "m_eval st' = m_eval st"
    and dn: "m_repair_down st' = m_repair_down st"
    and up: "m_repair_up st' = m_repair_up st"
    and mr: "m_max_repairs (m_config st') = m_max_repairs (m_config st)"
    and lm: "m_limit st' = m_limit st"
  shows "((\<exists>err. run E (updt_params E p st) = Inl err \<and> run E (updt_params E p st') = Inl err) \<or>
          (\<exists>res fin ls.
             run E (updt_params E p st) =
               Inr (res, fin\<lparr>verbose_stream := verbose_stream st @ ls\<rparr>) \<and>
             run E (updt_params E p st') =
               Inr (res, fin\<lparr>verbose_stream := verbose_stream st' @ ls\<rparr>))) \<and>
         (\<forall>s d e s2 r s'.
            20 \<le> verbosity_level E \<and>
            next_to_repair E (s\<lparr>m_stats := (m_stats s)\<lparr>m_moves := m_moves (m_stats s) + 1\<rparr>\<rparr>)
              = (d, Some e, s2) \<and>
            search_body E s = Inr (r, s') \<longrightarrow>
              (\<exists>l. verbose_stream s' = verbose_stream s @ [l] \<and> picks [l] = [(d, get_id e)]))"
proof
  define base where "base = (updt_params E p st)\<lparr>m_stats := \<lparr>m_moves = 0, m_restarts = 0\<rparr>,
                                  verbose_stream := []\<rparr>"
  have a: "(updt_params E p st)\<lparr>m_stats := \<lparr>m_moves = 0, m_restarts = 0\<rparr>\<rparr> =
      with_log (verbose_stream st) base"
    by (simp add: base_def with_log_def updt_params_def)
  from mr have "(m_config st')\<lparr>m_max_restarts := max_restarts p\<rparr> =
      (m_config st)\<lparr>m_max_restarts := max_restarts p\<rparr>"
    by (cases "m_config st'"; cases "m_config st") simp
  with ev dn up lm
  have b: "(updt_params E p st')\<lparr>m_stats := \<lparr>m_moves = 0, m_restarts = 0\<rparr>\<rparr> =
      with_log (verbose_stream st') base"
    by (cases st'; cases st) (simp add: base_def with_log_def updt_params_def)
  show "(\<exists>err. run E (updt_params E p st) = Inl err \<and> run E (updt_params E p st') = Inl err) \<or>
          (\<exists>res fin ls.
             run E (updt_params E p st) =
               Inr (res, fin\<lparr>verbose_stream := verbose_stream st @ ls\<rparr>) \<and>
             run E (updt_params E p st') =
               Inr (res, fin\<lparr>verbose_stream := verbose_stream st' @ ls\<rparr>))"
  proof (cases "run_loop E base")
    case (Inl err)
    then have "run E (updt_params E p st) = Inl err \<and> run E (updt_params E p st') = Inl err"
      unfolding run_def a b by (simp add: run_loop_log)
    then show ?thesis by blast
  next
    case (Inr x)
    obtain res fin where x: "x = (res, fin)" by (cases x)
    from Inr x have "run E (updt_params E p st) =
               Inr (res, fin\<lparr>verbose_stream := verbose_stream st @ verbose_stream fin\<rparr>) \<and>
             run E (updt_params E p st') =
               Inr (res, fin\<lparr>verbose_stream := verbose_stream st' @ verbose_stream fin\<rparr>)"
      unfolding run_def a b by (simp add: run_loop_log) (simp add: with_log_def)
    then show ?thesis by blast
  qed
next
  show "\<forall>s d e s2 r s'.
            20 \<le> verbosity_level E \<and>
            next_to_repair E (s\<lparr>m_stats := (m_stats s)\<lparr>m_moves := m_moves (m_stats s) + 1\<rparr>\<rparr>)
              = (d, Some e, s2) \<and>
            search_body E s = Inr (r, s') \<longrightarrow>
              (\<exists>l. verbose_stream s' = verbose_stream s @ [l] \<and> picks [l] = [(d, get_id e)])"
    by (intro allI impI, elim conjE) (rule search_body_logs_pick)
qed

theorem run_seed_deterministic_witness:
  "m_eval (ex_sls\<lparr>m_rand := 7, m_config := \<lparr>m_max_restarts = 7, m_max_repairs = 10\<rparr>,
             m_stats := \<lparr>m_moves = 5, m_restarts = 9\<rparr>,
             verbose_stream := [Restart_line 3 0 0]\<rparr>) = m_eval ex_sls \<and>
   m_max_repairs (m_config (ex_sls\<lparr>m_rand := 7,
             m_config := \<lparr>m_max_restarts = 7, m_max_repairs = 10\<rparr>,
             m_stats := \<lparr>m_moves = 5, m_restarts = 9\<rparr>,
             verbose_stream := [Restart_line 3 0 0]\<rparr>)) = m_max_repairs (m_config ex_sls) \<and>
   run ex_env (updt_params ex_env \<lparr>max_restarts = 2, random_seed = 0\<rparr> ex_sls) =
     Inr (l_true, ex_sls\<lparr>m_eval := {1, 2}, m_rand := 6,
            m_repair_down := [], m_repair_up := [],
            m_stats := \<lparr>m_moves = 6, m_restarts = 0\<rparr>, m_limit := 94,
            verbose_stream :=
              [Move_line True 1 None (Some True) False,
               Move_line True 1 None (Some True) True,
               Move_line True 0 None (Some False) True,
               Move_line False 1 None (Some True) True,
               Move_line False 3 None (Some True) False]\<rparr>) \<and>
   run ex_env (updt_params ex_env \<lparr>max_restarts = 2, random_seed = 0\<rparr>
      (ex_sls\<lparr>m_rand := 7, m_config := \<lparr>m_max_restarts = 7, m_max_repairs = 10\<rparr>,
             m_stats := \<lparr>m_moves = 5, m_restarts = 9\<rparr>,
             verbose_stream := [Restart_line 3 0 0]\<rparr>)) =
     Inr (l_true, ex_sls\<lparr>m_eval := {1, 2}, m_rand := 6,
            m_repair_down := [], m_repair_up := [],
            m_stats := \<lparr>m_moves = 6, m_restarts = 0\<rparr>, m_limit := 94,
            verbose_stream :=
              [Restart_line 3 0 0,
               Move_line True 1 None (Some True) False,
               Move_line True 1 None (Some True) True,
               Move_line True 0 None (Some False) True,
               Move_line False 1 None (Some True) True,
               Move_line False 3 None (Some True) False]\<rparr>) \<and>
   20 \<le> verbosity_level ex_env \<and>
   next_to_repair ex_env (ex_sls\<lparr>m_stats := (m_stats ex_sls)\<lparr>m_moves := m_moves (m_stats ex_sls) + 1\<rparr>\<rparr>)
     = (True, Some ex_not, ex_sls\<lparr>m_rand := 3, m_stats := \<lparr>m_moves = 1, m_restarts = 0\<rparr>\<rparr>) \<and>
   search_body ex_env ex_sls =
     Inr (None, ex_sls\<lparr>m_eval := {1, 2, 3}, m_rand := 2, m_repair_down := [1, 0],
            m_repair_up := [1, 3], m_stats := \<lparr>m_moves = 1, m_restarts = 0\<rparr>,
            verbose_stream := [Move_line True 1 None (Some True) False]\<rparr>) \<and>
   (\<exists>l. [Move_line True 1 None (Some True) False] = [l] \<and> picks [l] = [(True, 1)])"
proof -
  let ?p = "\<lparr>max_restarts = 2, random_seed = 0\<rparr>"
  let ?other = "ex_sls\<lparr>m_rand := 7, m_config := \<lparr>m_max_restarts = 7, m_max_repairs = 10\<rparr>,
             m_stats := \<lparr>m_moves = 5, m_restarts = 9\<rparr>,
             verbose_stream := [Restart_line 3 0 0]\<rparr>"
  let ?lines = "[Move_line True 1 None (Some True) False,
               Move_line True 1 None (Some True) True,
               Move_line True 0 None (Some False) True,
               Move_line False 1 None (Some True) True,
               Move_line False 3 None (Some True) False]"
  let ?fin = "ex_sls\<lparr>m_eval := {1, 2}, m_rand := 6,
            m_repair_down := [], m_repair_up := [],
            m_stats := \<lparr>m_moves = 6, m_restarts = 0\<rparr>, m_limit := 94,
            verbose_stream := ?lines\<rparr>"
  have ev: "m_eval ?other = m_eval ex_sls"
    and dn: "m_repair_down ?other = m_repair_down ex_sls"
    and up: "m_repair_up ?other = m_repair_up ex_sls"
    and lm: "m_limit ?other = m_limit ex_sls"
    by simp_all
  have mr: "m_max_repairs (m_config ?other) = m_max_repairs (m_config ex_sls)"
    by (simp add: ex_sls_def)
  have r: "run ex_env (updt_params ex_env ?p ex_sls) = Inr (l_true, ?fin)"
    by (simp add: updt_params_def ex_run_defs ex_search_defs ex_move_defs ex_defs)
  have vs: "verbose_stream ex_sls = []" "verbose_stream ?other = [Restart_line 3 0 0]"
    by (simp_all add: ex_sls_def)
  from run_seed_deterministic [OF ev dn up mr lm, of ex_env ?p, THEN conjunct1] r
  obtain res fin ls where
    a: "Inr (l_true, ?fin) = Inr (res, fin\<lparr>verbose_stream := verbose_stream ex_sls @ ls\<rparr>)"
    and b: "run ex_env (updt_params ex_env ?p ?other) =
              Inr (res, fin\<lparr>verbose_stream := verbose_stream ?other @ ls\<rparr>)"
    by auto
  from a have res: "res = l_true" and f: "fin\<lparr>verbose_stream := ls\<rparr> = ?fin"
    by (simp_all add: vs)
  from f have "verbose_stream (fin\<lparr>verbose_stream := ls\<rparr>) = verbose_stream ?fin"
    by (rule arg_cong)
  then have ls: "ls = ?lines"
    by simp
  have "fin\<lparr>verbose_stream := Restart_line 3 0 0 # ?lines\<rparr> =
        (fin\<lparr>verbose_stream := ls\<rparr>)\<lparr>verbose_stream := Restart_line 3 0 0 # ?lines\<rparr>"
    by simp
  also have "\<dots> = ?fin\<lparr>verbose_stream := Restart_line 3 0 0 # ?lines\<rparr>"
    by (simp only: f)
  finally have g: "fin\<lparr>verbose_stream := Restart_line 3 0 0 # ?lines\<rparr> =
      ex_sls\<lparr>m_eval := {1, 2}, m_rand := 6,
            m_repair_down := [], m_repair_up := [],
            m_stats := \<lparr>m_moves = 6, m_restarts = 0\<rparr>, m_limit := 94,
            verbose_stream := Restart_line 3 0 0 # ?lines\<rparr>"
    by simp
  from b res ls have "run ex_env (updt_params ex_env ?p ?other) =
      Inr (l_true, fin\<lparr>verbose_stream := Restart_line 3 0 0 # ?lines\<rparr>)"
    by (simp add: vs)
  then have r2: "run ex_env (updt_params ex_env ?p ?other) =
      Inr (l_true, ex_sls\<lparr>m_eval := {1, 2}, m_rand := 6,
            m_repair_down := [], m_repair_up := [],
            m_stats := \<lparr>m_moves = 6, m_restarts = 0\<rparr>, m_limit := 94,
            verbose_stream := Restart_line 3 0 0 # ?lines\<rparr>)"
    by (simp only: g)
  let ?pick = "ex_sls\<lparr>m_rand := 3, m_stats := \<lparr>m_moves = 1, m_restarts = 0\<rparr>\<rparr>"
  let ?round = "ex_sls\<lparr>m_eval := {1, 2, 3}, m_rand := 2, m_repair_down := [1, 0],
            m_repair_up := [1, 3], m_stats := \<lparr>m_moves = 1, m_restarts = 0\<rparr>,
            verbose_stream := [Move_line True 1 None (Some True) False]\<rparr>"
  have v: "20 \<le> verbosity_level ex_env"
    by (simp add: ex_env_def)
  have nx: "next_to_repair ex_env
      (ex_sls\<lparr>m_stats := (m_stats ex_sls)\<lparr>m_moves := m_moves (m_stats ex_sls) + 1\<rparr>\<rparr>)
      = (True, Some ex_not, ?pick)"
    by (simp add: next_to_repair_def uset_empty_def uset_size_def elem_at_def rand_below_def
        ex_defs)
  have sb: "search_body ex_env ex_sls = Inr (None, ?round)"
    by (simp add: search_body_def next_to_repair_def uset_empty_def uset_size_def elem_at_def
        eval_is_correct_def is_bool_def is_bv_def move_line_def ex_move_defs ex_defs)
  have hp: "20 \<le> verbosity_level ex_env \<and>
      next_to_repair ex_env
        (ex_sls\<lparr>m_stats := (m_stats ex_sls)\<lparr>m_moves := m_moves (m_stats ex_sls) + 1\<rparr>\<rparr>)
        = (True, Some ex_not, ?pick) \<and>
      search_body ex_env ex_sls = Inr (None, ?round)"
    using v nx sb by (intro conjI)
  from run_seed_deterministic [OF ev dn up mr lm, of ex_env ?p, THEN conjunct2, rule_format, OF hp]
  have pk: "\<exists>l. [Move_line True 1 None (Some True) False] = [l] \<and> picks [l] = [(True, 1)]"
    by (simp add: vs ex_not_def)
  from ev mr r r2 v nx sb pk show ?thesis
    by (intro conjI)
qed

text \<open>
  The claim as written makes the seeded generator the only source of nondeterminism. In
  the instance two runs with the same terms, assertions, evaluator and seed differ in
  the state of the host's limit only: with 100 calls of \<^verbatim>\<open>m.inc()\<close> allowed the run
  returns \<^verbatim>\<open>l_true\<close> at the sixth move; with 3 it returns \<^verbatim>\<open>l_undef\<close> after
  three moves.
\<close>

theorem run_host_limit_counterexample:
  "run ex_env (updt_params ex_env \<lparr>max_restarts = 2, random_seed = 0\<rparr> ex_sls) =
     Inr (l_true, ex_sls\<lparr>m_eval := {1, 2}, m_rand := 6,
            m_repair_down := [], m_repair_up := [],
            m_stats := \<lparr>m_moves = 6, m_restarts = 0\<rparr>, m_limit := 94,
            verbose_stream :=
              [Move_line True 1 None (Some True) False,
               Move_line True 1 None (Some True) True,
               Move_line True 0 None (Some False) True,
               Move_line False 1 None (Some True) True,
               Move_line False 3 None (Some True) False]\<rparr>) \<and>
   run ex_env (updt_params ex_env \<lparr>max_restarts = 2, random_seed = 0\<rparr> (ex_sls\<lparr>m_limit := 3\<rparr>)) =
     Inr (l_undef, ex_sls\<lparr>m_eval := {1, 2}, m_rand := 6,
            m_repair_down := [], m_repair_up := [],
            m_stats := \<lparr>m_moves = 3, m_restarts = 0\<rparr>, m_limit := 0,
            verbose_stream :=
              [Move_line True 1 None (Some True) False,
               Move_line True 1 None (Some True) True,
               Move_line True 0 None (Some False) True,
               Restart_line 0 0 2]\<rparr>)"
proof
  show "run ex_env (updt_params ex_env \<lparr>max_restarts = 2, random_seed = 0\<rparr> ex_sls) =
     Inr (l_true, ex_sls\<lparr>m_eval := {1, 2}, m_rand := 6,
            m_repair_down := [], m_repair_up := [],
            m_stats := \<lparr>m_moves = 6, m_restarts = 0\<rparr>, m_limit := 94,
            verbose_stream :=
              [Move_line True 1 None (Some True) False,
               Move_line True 1 None (Some True) True,
               Move_line True 0 None (Some False) True,
               Move_line False 1 None (Some True) True,
               Move_line False 3 None (Some True) False]\<rparr>)"
    by (simp add: updt_params_def ex_run_defs ex_search_defs ex_move_defs ex_defs)
next
  show "run ex_env (updt_params ex_env \<lparr>max_restarts = 2, random_seed = 0\<rparr> (ex_sls\<lparr>m_limit := 3\<rparr>)) =
     Inr (l_undef, ex_sls\<lparr>m_eval := {1, 2}, m_rand := 6,
            m_repair_down := [], m_repair_up := [],
            m_stats := \<lparr>m_moves = 3, m_restarts = 0\<rparr>, m_limit := 0,
            verbose_stream :=
              [Move_line True 1 None (Some True) False,
               Move_line True 1 None (Some True) True,
               Move_line True 0 None (Some False) True,
               Restart_line 0 0 2]\<rparr>)"
    by (simp add: updt_params_def ex_run_defs ex_search_defs ex_init_defs ex_move_defs ex_defs
        insert_commute)
qed

text \<open>
  Claim C9, as amended. \<^verbatim>\<open>updt_params\<close> validates nothing and always succeeds: it
  installs \<^verbatim>\<open>max_restarts\<close> and seeds the generator with \<^verbatim>\<open>random_seed\<close>, whatever
  their values, and leaves \<^verbatim>\<open>m_max_repairs\<close> and the rest of the engine unchanged.
\<close>

theorem updt_params_installs:
  "m_max_restarts (m_config (updt_params E p st)) = max_restarts p \<and>
   m_rand (updt_params E p st) = set_seed (rand_ops E) (random_seed p) \<and>
   m_max_repairs (m_config (updt_params E p st)) = m_max_repairs (m_config st) \<and>
   m_eval (updt_params E p st) = m_eval st \<and>
   m_repair_down (updt_params E p st) = m_repair_down st \<and>
   m_repair_up (updt_params E p st) = m_repair_up st \<and>
   m_stats (updt_params E p st) = m_stats st \<and>
   m_limit (updt_params E p st) = m_limit st \<and>
   verbose_stream (updt_params E p st) = verbose_stream st"
  by (simp add: updt_params_def)

text \<open>
  The claim as written has a configuration that is not positive rejected. Zero for both
  options is accepted and installed.
\<close>

theorem updt_params_accepts_zero_counterexample:
  "updt_params ex_env \<lparr>max_restarts = 0, random_seed = 0\<rparr> ex_sls =
     ex_sls\<lparr>m_config := \<lparr>m_max_restarts = 0, m_max_repairs = 10\<rparr>, m_rand := 0\<rparr>"
  by (simp add: updt_params_def ex_defs)


end
